theory Spec2Isabelle
  imports Main "HOL-Library.Word" "HOL-Library.Monad_Syntax"
begin

unbundle bit_operations_syntax

section \<open>Common types\<close>

text \<open>
  \<^verbatim>\<open>frame_id_t\<close> and \<^verbatim>\<open>page_id_t\<close> are 32-bit signed integers in the source. No arithmetic
  is ever done on them, so they are modelled as \<^typ>\<open>int\<close>; the one narrowing conversion the
  code performs on a size (\<^verbatim>\<open>int32_t(buffer_size)\<close>) is written out with a 32-bit word.

  Undefined behaviour of the C++ code (an index outside a vector or array, a null pointer
  dereference, a division by zero, a signed overflow) is the value \<^term>\<open>None\<close> of the
  functions below that can run into it.
\<close>

type_synonym frame_id_t = int
type_synonym page_id_t = int

definition INVALID_PAGE_ID :: page_id_t where
  "INVALID_PAGE_ID = -1"

definition int32_of_size :: "nat \<Rightarrow> int" where
  "int32_of_size n = sint (word_of_nat n :: 32 word)"

section \<open>The clock replacer (clock\_replacer.cpp)\<close>

record ClockReplacer =
  clock_hand :: nat
  buffer_size :: nat
  ref_f :: "bool list"
  in_f :: "bool list"

definition ClockReplacer_new :: "nat \<Rightarrow> ClockReplacer" where
  "ClockReplacer_new num_pages =
     \<lparr>clock_hand = 0, buffer_size = num_pages,
      ref_f = replicate num_pages False, in_f = replicate num_pages False\<rparr>"

text \<open>
  The sweep of \<^verbatim>\<open>Victim\<close>: the \<^verbatim>\<open>for\<close> loop over \<open>i\<close>, with the local \<^verbatim>\<open>candi\<close>. It
  returns \<^verbatim>\<open>result\<close>, the value written to \<^verbatim>\<open>*frame_id\<close> (if any), \<^verbatim>\<open>candi\<close> and the
  replacer. The vectors are indexed by \<open>(clock_hand + i) % buffer_size\<close>, which is below
  their length \<open>buffer_size\<close>.
\<close>

function Victim_loop ::
  "ClockReplacer \<Rightarrow> nat \<Rightarrow> int \<Rightarrow> bool \<times> frame_id_t option \<times> int \<times> ClockReplacer" where
  "Victim_loop r i candi =
     (if i < buffer_size r then
        (let index = (clock_hand r + i) mod buffer_size r in
         if in_f r ! index \<and> \<not> ref_f r ! index then
           (True, Some (int index), candi,
            r\<lparr>clock_hand := (index + 1) mod buffer_size r,
              in_f := (in_f r)[index := False]\<rparr>)
         else if in_f r ! index \<and> ref_f r ! index then
           Victim_loop (r\<lparr>ref_f := (ref_f r)[index := False]\<rparr>) (i + 1)
             (if candi = -1 then int index else candi)
         else Victim_loop r (i + 1) candi)
      else (False, None, candi, r))"
  by pat_completeness auto
termination
  by (relation "measure (\<lambda>(r, i, candi). buffer_size r - i)") auto

declare Victim_loop.simps [simp del]

definition Victim :: "ClockReplacer \<Rightarrow> frame_id_t option \<times> ClockReplacer" where
  "Victim r =
     (case Victim_loop r 0 (-1) of
        (result, fid, candi, r1) \<Rightarrow>
          if \<not> result then
            (if candi = -1 then (None, r1)
             else (Some candi,
                   r1\<lparr>clock_hand := nat (candi + 1) mod buffer_size r1,
                      in_f := (in_f r1)[nat candi := False]\<rparr>))
          else (fid, r1))"

text \<open>
  \<^verbatim>\<open>Pin\<close> and \<^verbatim>\<open>Unpin\<close> guard only against \<open>frame_id >= int32_t(buffer_size)\<close>; the vector
  accesses that follow are \<^verbatim>\<open>operator[]\<close>, undefined outside the vector.
\<close>

definition Pin :: "ClockReplacer \<Rightarrow> frame_id_t \<Rightarrow> ClockReplacer option" where
  "Pin r frame_id =
     (if frame_id \<ge> int32_of_size (buffer_size r) then Some r
      else if 0 \<le> frame_id \<and> nat frame_id < length (in_f r)
        then Some (r\<lparr>in_f := (in_f r)[nat frame_id := False]\<rparr>)
      else None)"

definition Unpin :: "ClockReplacer \<Rightarrow> frame_id_t \<Rightarrow> ClockReplacer option" where
  "Unpin r frame_id =
     (if frame_id \<ge> int32_of_size (buffer_size r) then Some r
      else if 0 \<le> frame_id \<and> nat frame_id < length (in_f r) \<and> nat frame_id < length (ref_f r)
        then Some (r\<lparr>in_f := (in_f r)[nat frame_id := True],
                     ref_f := (ref_f r)[nat frame_id := True]\<rparr>)
      else None)"

function Size_loop :: "ClockReplacer \<Rightarrow> nat \<Rightarrow> nat \<Rightarrow> nat" where
  "Size_loop r i counter =
     (if i < buffer_size r
      then Size_loop r (i + 1) (if in_f r ! i then counter + 1 else counter)
      else counter)"
  by pat_completeness auto
termination
  by (relation "measure (\<lambda>(r, i, counter). buffer_size r - i)") auto

declare Size_loop.simps [simp del]

definition Size :: "ClockReplacer \<Rightarrow> nat" where
  "Size r = Size_loop r 0 0"

text \<open>
  The class invariant the constructor sets up: both vectors have \<open>buffer_size\<close> entries,
  the hand is a position of the clock, and the capacity fits \<^verbatim>\<open>frame_id_t\<close>.
\<close>

definition replacer_wf :: "ClockReplacer \<Rightarrow> bool" where
  "replacer_wf r \<longleftrightarrow>
     length (ref_f r) = buffer_size r \<and> length (in_f r) = buffer_size r \<and>
     buffer_size r < 2 ^ 31 \<and> (clock_hand r < buffer_size r \<or> clock_hand r = 0)"

text \<open>
  Scenario S4 of the specification: capacity 3, then \<^verbatim>\<open>Unpin(0)\<close>, \<^verbatim>\<open>Unpin(1)\<close>,
  \<^verbatim>\<open>Unpin(2)\<close>, \<^verbatim>\<open>Unpin(0)\<close>.
\<close>

definition S4_replacer :: "ClockReplacer option" where
  "S4_replacer =
     do { r1 \<leftarrow> Unpin (ClockReplacer_new 3) 0;
          r2 \<leftarrow> Unpin r1 1;
          r3 \<leftarrow> Unpin r2 2;
          Unpin r3 0 }"

text \<open>A replacer in the middle of its life: hand at 1, frames 0 and 2 unpinned and referenced.\<close>

definition example_replacer :: ClockReplacer where
  "example_replacer =
     \<lparr>clock_hand = 1, buffer_size = 3,
      ref_f = [True, False, True], in_f = [True, False, True]\<rparr>"

section \<open>The hash table block page (hash\_table\_block\_page.cpp)\<close>

text \<open>
  Modelled from the spec: the declaration of the class (\<^verbatim>\<open>hash_table_block_page.h\<close>) is not
  among the sources. The specification gives its layout: an occupied bitmap and a readable
  bitmap of \<open>\<lceil>SLOTS / 8\<rceil>\<close> bytes each, followed by the array of \<open>SLOTS\<close> key-value pairs,
  \<open>SLOTS\<close> being the constant \<^verbatim>\<open>BLOCK_ARRAY_SIZE\<close>. The bitmaps are arrays of
  \<^verbatim>\<open>std::atomic_char\<close>: bytes, modelled as 8-bit words. \<^verbatim>\<open>sizeof(occupied_)\<close> is the length
  of the list.
\<close>

record ('k, 'v) HashTableBlockPage =
  occupied :: "8 word list"
  readable :: "8 word list"
  array :: "('k \<times> 'v) list"

text \<open>
  \<^verbatim>\<open>KeyAt\<close> and \<^verbatim>\<open>ValueAt\<close> copy the pair out of \<^verbatim>\<open>array_ + bucket_ind\<close> without a
  check; every caller passes an index below \<^verbatim>\<open>BLOCK_ARRAY_SIZE\<close>.
\<close>

definition KeyAt :: "('k, 'v) HashTableBlockPage \<Rightarrow> nat \<Rightarrow> 'k" where
  "KeyAt b bucket_ind = fst (array b ! bucket_ind)"

definition ValueAt :: "('k, 'v) HashTableBlockPage \<Rightarrow> nat \<Rightarrow> 'v" where
  "ValueAt b bucket_ind = snd (array b ! bucket_ind)"

definition IsOccupied :: "('k, 'v) HashTableBlockPage \<Rightarrow> nat \<Rightarrow> bool" where
  "IsOccupied b bucket_ind =
     (let idx = bucket_ind div 8; bit = bucket_ind mod 8 in
      if idx \<ge> length (occupied b) then False
      else (occupied b ! idx) AND push_bit bit 1 \<noteq> 0)"

definition IsReadable :: "('k, 'v) HashTableBlockPage \<Rightarrow> nat \<Rightarrow> bool" where
  "IsReadable b bucket_ind =
     (let idx = bucket_ind div 8; bit = bucket_ind mod 8 in
      if idx \<ge> length (readable b) then False
      else (readable b ! idx) AND push_bit bit 1 \<noteq> 0)"

text \<open>
  \<^verbatim>\<open>Insert\<close> of the block page has no bounds check of its own: when \<^verbatim>\<open>IsOccupied\<close> answers
  false for an index beyond the bitmaps, the writes that follow leave the arrays.
\<close>

definition Block_Insert ::
  "('k, 'v) HashTableBlockPage \<Rightarrow> nat \<Rightarrow> 'k \<Rightarrow> 'v \<Rightarrow> (bool \<times> ('k, 'v) HashTableBlockPage) option" where
  "Block_Insert b bucket_ind key val =
     (if IsOccupied b bucket_ind then Some (False, b)
      else
        (let idx = bucket_ind div 8; bit = bucket_ind mod 8 in
         if idx < length (occupied b) \<and> idx < length (readable b) \<and>
            bucket_ind < length (array b)
         then Some (True,
                b\<lparr>occupied := (occupied b)[idx := (occupied b ! idx) OR push_bit bit 1],
                  readable := (readable b)[idx := (readable b ! idx) OR push_bit bit 1],
                  array := (array b)[bucket_ind := (key, val)]\<rparr>)
         else None))"

definition Block_Remove :: "('k, 'v) HashTableBlockPage \<Rightarrow> nat \<Rightarrow> ('k, 'v) HashTableBlockPage" where
  "Block_Remove b bucket_ind =
     (let idx = bucket_ind div 8; bit = bucket_ind mod 8 in
      if idx \<ge> length (occupied b) then b
      else b\<lparr>readable := (readable b)[idx := (readable b ! idx) AND NOT (push_bit bit 1)]\<rparr>)"

text \<open>
  The layout of a block page with \<open>B = BLOCK_ARRAY_SIZE\<close> slots, and the page a freshly
  zeroed frame holds.
\<close>

definition block_wf :: "nat \<Rightarrow> ('k, 'v) HashTableBlockPage \<Rightarrow> bool" where
  "block_wf B b \<longleftrightarrow>
     length (occupied b) = (B - 1) div 8 + 1 \<and>
     length (readable b) = (B - 1) div 8 + 1 \<and>
     length (array b) = B"

definition zero_block :: "nat \<Rightarrow> ('k::zero, 'v::zero) HashTableBlockPage" where
  "zero_block B =
     \<lparr>occupied = replicate ((B - 1) div 8 + 1) 0,
      readable = replicate ((B - 1) div 8 + 1) 0,
      array = replicate B (0, 0)\<rparr>"

text \<open>Every readable slot is occupied.\<close>

definition readable_occupied :: "('k, 'v) HashTableBlockPage \<Rightarrow> bool" where
  "readable_occupied b \<longleftrightarrow> (\<forall>i. IsReadable b i \<longrightarrow> IsOccupied b i)"

text \<open>A sequence of calls of the two mutating operations of a block page.\<close>

datatype ('k, 'v) block_op = BInsert nat 'k 'v | BRemove nat

fun block_ops ::
  "('k, 'v) HashTableBlockPage \<Rightarrow> ('k, 'v) block_op list \<Rightarrow> ('k, 'v) HashTableBlockPage option" where
  "block_ops b [] = Some b"
| "block_ops b (BInsert i k v # ops) =
     (case Block_Insert b i k v of None \<Rightarrow> None | Some (ok, b') \<Rightarrow> block_ops b' ops)"
| "block_ops b (BRemove i # ops) = block_ops (Block_Remove b i) ops"

text \<open>An \<^verbatim>\<open>Insert\<close> of the sequence is within a page of \<open>B\<close> slots.\<close>

fun insert_below :: "nat \<Rightarrow> ('k, 'v) block_op \<Rightarrow> bool" where
  "insert_below B (BInsert i k v) = (i < B)"
| "insert_below B (BRemove i) = True"

text \<open>A page of four slots whose slot 1 holds the pair \<open>(5, 7)\<close>.\<close>

definition example_block :: "(nat, nat) HashTableBlockPage" where
  "example_block =
     \<lparr>occupied = [2], readable = [2], array = [(0, 0), (5, 7), (0, 0), (0, 0)]\<rparr>"

section \<open>The probe loops of the hash table (linear\_probe\_hash\_table.cpp)\<close>

text \<open>
  The three \<^verbatim>\<open>while\<close> loops over the slots of the bucket page, each as a function of the
  page it runs on. \<open>B\<close> is \<^verbatim>\<open>BLOCK_ARRAY_SIZE\<close>, a macro of a header that is not among the
  sources; \<^verbatim>\<open>comparator_(a, b) == 0\<close> is equality of keys.
\<close>

function GetValue_loop ::
  "nat \<Rightarrow> ('k, 'v) HashTableBlockPage \<Rightarrow> 'k \<Rightarrow> nat \<Rightarrow> 'v list \<Rightarrow> bool \<Rightarrow> 'v list \<times> bool" where
  "GetValue_loop B bucket key iter result rtn =
     (if iter < B then
        (if IsReadable bucket iter \<and> KeyAt bucket iter = key
         then GetValue_loop B bucket key (iter + 1) (result @ [ValueAt bucket iter]) True
         else GetValue_loop B bucket key (iter + 1) result rtn)
      else (result, rtn))"
  by pat_completeness auto
termination
  by (relation "measure (\<lambda>(B, bucket, key, iter, result, rtn). B - iter)") auto

declare GetValue_loop.simps [simp del]

function Insert_loop ::
  "nat \<Rightarrow> ('k, 'v) HashTableBlockPage \<Rightarrow> 'k \<Rightarrow> 'v \<Rightarrow> nat \<Rightarrow> bool \<Rightarrow>
   (bool \<times> ('k, 'v) HashTableBlockPage) option" where
  "Insert_loop B bucket key val iter ins_suc =
     (if iter < B \<and> \<not> ins_suc then
        (case Block_Insert bucket iter key val of
           None \<Rightarrow> None
         | Some (ins_suc', bucket') \<Rightarrow>
             if IsReadable bucket' iter \<and>
                KeyAt bucket' iter = key \<and> ValueAt bucket' iter = val
             then Some (ins_suc', bucket')
             else Insert_loop B bucket' key val (iter + 1) ins_suc')
      else Some (ins_suc, bucket))"
  by pat_completeness auto
termination
  by (relation "measure (\<lambda>(B, bucket, key, val, iter, ins_suc). B - iter)") auto

declare Insert_loop.simps [simp del]

function Remove_loop ::
  "nat \<Rightarrow> ('k, 'v) HashTableBlockPage \<Rightarrow> 'k \<Rightarrow> 'v \<Rightarrow> nat \<Rightarrow> ('k, 'v) HashTableBlockPage \<times> nat" where
  "Remove_loop B bucket key val offset =
     (if offset < B then
        (if IsReadable bucket offset \<and>
            KeyAt bucket offset = key \<and> ValueAt bucket offset = val
         then (Block_Remove bucket offset, offset)
         else Remove_loop B bucket key val (offset + 1))
      else (bucket, offset))"
  by pat_completeness auto
termination
  by (relation "measure (\<lambda>(B, bucket, key, val, offset). B - offset)") auto

declare Remove_loop.simps [simp del]

text \<open>
  The shape linear probing gives a block page, for the hash function \<open>h\<close>: a readable slot
  is occupied, it lies at or after the probe start of its key, every slot between that
  start and it is occupied, and no pair is readable in two slots.
\<close>

definition probe_ok :: "('k \<Rightarrow> nat) \<Rightarrow> nat \<Rightarrow> ('k, 'v) HashTableBlockPage \<Rightarrow> bool" where
  "probe_ok h B b \<longleftrightarrow>
     (\<forall>j<B. IsReadable b j \<longrightarrow>
        IsOccupied b j \<and> h (KeyAt b j) mod B \<le> j \<and>
        (\<forall>i. h (KeyAt b j) mod B \<le> i \<and> i < j \<longrightarrow> IsOccupied b i)) \<and>
     (\<forall>j<B. \<forall>j'<B.
        IsReadable b j \<and> IsReadable b j' \<and>
        KeyAt b j = KeyAt b j' \<and> ValueAt b j = ValueAt b j' \<longrightarrow> j = j')"

text \<open>Slot \<open>i\<close> of the page is readable and holds the pair \<open>(k, v)\<close>.\<close>

definition live :: "('k, 'v) HashTableBlockPage \<Rightarrow> nat \<Rightarrow> 'k \<Rightarrow> 'v \<Rightarrow> bool" where
  "live b i k v \<longleftrightarrow> IsReadable b i \<and> KeyAt b i = k \<and> ValueAt b i = v"

section \<open>The buffer pool manager (buffer\_pool\_manager.cpp)\<close>

text \<open>
  Modelled from the spec: the class \<^verbatim>\<open>Page\<close> (\<^verbatim>\<open>page.h\<close>) and the disk manager are not among
  the sources. A frame is the page bytes with the metadata \<^verbatim>\<open>page_id_\<close>, \<^verbatim>\<open>pin_count_\<close> and
  \<^verbatim>\<open>is_dirty_\<close>; the type \<open>'d\<close> of the page bytes is a parameter whose \<open>0\<close> is the zeroed
  page of \<^verbatim>\<open>ResetMemory\<close>. The disk manager reads and writes whole pages and hands out page
  ids monotonically, never reusing one; \<^verbatim>\<open>DeallocatePage\<close> does nothing to the file.
  (Members are named as in the source, without the trailing underscore.)
\<close>

record 'd Page =
  data :: 'd
  page_id :: page_id_t
  pin_count :: int
  is_dirty :: bool

record 'd DiskManager =
  disk_pages :: "page_id_t \<Rightarrow> 'd"
  next_page_id :: page_id_t

definition ReadPage :: "'d DiskManager \<Rightarrow> page_id_t \<Rightarrow> 'd" where
  "ReadPage d p = disk_pages d p"

definition WritePage :: "'d DiskManager \<Rightarrow> page_id_t \<Rightarrow> 'd \<Rightarrow> 'd DiskManager" where
  "WritePage d p bytes = d\<lparr>disk_pages := (disk_pages d)(p := bytes)\<rparr>"

definition AllocatePage :: "'d DiskManager \<Rightarrow> page_id_t \<times> 'd DiskManager" where
  "AllocatePage d = (next_page_id d, d\<lparr>next_page_id := next_page_id d + 1\<rparr>)"


record 'd BufferPoolManager =
  pool_size :: nat
  pages :: "'d Page list"
  disk_manager :: "'d DiskManager"
  page_table :: "page_id_t \<rightharpoonup> frame_id_t"
  replacer :: ClockReplacer
  free_list :: "frame_id_t list"

definition BufferPoolManager_new :: "nat \<Rightarrow> 'd DiskManager \<Rightarrow> ('d::zero) BufferPoolManager" where
  "BufferPoolManager_new n dm =
     \<lparr>pool_size = n,
      pages = replicate n \<lparr>data = 0, page_id = INVALID_PAGE_ID, pin_count = 0, is_dirty = False\<rparr>,
      disk_manager = dm,
      page_table = Map.empty,
      replacer = ClockReplacer_new n,
      free_list = map int [0..<n]\<rparr>"

text \<open>
  \<^verbatim>\<open>pages_[f]\<close> indexes a plain array of \<^verbatim>\<open>pool_size_\<close> frames; \<^verbatim>\<open>pin_count_ += 1\<close> is an
  addition on \<^verbatim>\<open>int\<close>, undefined at \<^verbatim>\<open>INT_MAX\<close>.
\<close>

definition page_at :: "'d BufferPoolManager \<Rightarrow> frame_id_t \<Rightarrow> 'd Page option" where
  "page_at s f = (if 0 \<le> f \<and> nat f < length (pages s) then Some (pages s ! nat f) else None)"

definition set_page :: "'d BufferPoolManager \<Rightarrow> frame_id_t \<Rightarrow> 'd Page \<Rightarrow> 'd BufferPoolManager" where
  "set_page s f pg = s\<lparr>pages := (pages s)[nat f := pg]\<rparr>"

definition incr_pin :: "int \<Rightarrow> int option" where
  "incr_pin c = (if c < 2147483647 then Some (c + 1) else None)"

text \<open>
  The operations return \<^term>\<open>None\<close> where the C++ is undefined; a \<^verbatim>\<open>Page *\<close> result is the
  frame it points to, \<^verbatim>\<open>nullptr\<close> being \<^term>\<open>None\<close> inside. The latches are not modelled.
\<close>

definition FlushPageImpl ::
  "'d BufferPoolManager \<Rightarrow> page_id_t \<Rightarrow> (bool \<times> 'd BufferPoolManager) option" where
  "FlushPageImpl s pid =
     (case page_table s pid of
        None \<Rightarrow> Some (False, s)
      | Some frame \<Rightarrow>
          do { pg \<leftarrow> page_at s frame;
               if \<not> is_dirty pg then Some (True, s)
               else Some (True,
                 set_page (s\<lparr>disk_manager := WritePage (disk_manager s) pid (data pg)\<rparr>)
                   frame (pg\<lparr>is_dirty := False\<rparr>)) })"

definition FetchPageImpl ::
  "'d BufferPoolManager \<Rightarrow> page_id_t \<Rightarrow> (frame_id_t option \<times> 'd BufferPoolManager) option" where
  "FetchPageImpl s pid =
     (case page_table s pid of
        Some target \<Rightarrow>
          do { r \<leftarrow> Pin (replacer s) target;
               pg \<leftarrow> page_at s target;
               pc \<leftarrow> incr_pin (pin_count pg);
               Some (Some target, set_page (s\<lparr>replacer := r\<rparr>) target (pg\<lparr>pin_count := pc\<rparr>)) }
      | None \<Rightarrow>
          (case free_list s of
             target # rest \<Rightarrow>
               do { r \<leftarrow> Pin (replacer s) target;
                    pg \<leftarrow> page_at s target;
                    pc \<leftarrow> incr_pin (pin_count pg);
                    Some (Some target,
                      set_page
                        (s\<lparr>free_list := rest, replacer := r,
                           page_table := (page_table s)(pid \<mapsto> target)\<rparr>)
                        target
                        (pg\<lparr>pin_count := pc, page_id := pid, is_dirty := False,
                            data := ReadPage (disk_manager s) pid\<rparr>)) }
           | [] \<Rightarrow>
               (case Victim (replacer s) of
                  (None, r) \<Rightarrow> Some (None, s\<lparr>replacer := r\<rparr>)
                | (Some target, r) \<Rightarrow>
                    do { let s1 = s\<lparr>replacer := r\<rparr>;
                         pg \<leftarrow> page_at s1 target;
                         let evict_page = page_id pg;
                         (flu_suc, s2) \<leftarrow>
                           (if is_dirty pg then FlushPageImpl s1 evict_page else Some (True, s1));
                         if \<not> flu_suc then Some (None, s2)
                         else
                           do { r' \<leftarrow> Pin (replacer s2) target;
                                pg' \<leftarrow> page_at s2 target;
                                pc \<leftarrow> incr_pin (pin_count pg');
                                Some (Some target,
                                  set_page
                                    (s2\<lparr>replacer := r',
                                        page_table := ((page_table s2)(evict_page := None))(pid \<mapsto> target)\<rparr>)
                                    target
                                    (pg'\<lparr>pin_count := pc, page_id := pid, is_dirty := False,
                                         data := ReadPage (disk_manager s2) pid\<rparr>)) } })))"

definition UnpinPageImpl ::
  "'d BufferPoolManager \<Rightarrow> page_id_t \<Rightarrow> bool \<Rightarrow> (bool \<times> 'd BufferPoolManager) option" where
  "UnpinPageImpl s pid dirty =
     (case page_table s pid of
        None \<Rightarrow> Some (True, s)
      | Some frame \<Rightarrow>
          do { pg \<leftarrow> page_at s frame;
               if pin_count pg \<le> 0 then Some (False, s)
               else
                 (let pg' = pg\<lparr>pin_count := pin_count pg - 1, is_dirty := is_dirty pg \<or> dirty\<rparr>;
                      s1 = set_page s frame pg'
                  in if pin_count pg' = 0
                     then do { r \<leftarrow> Unpin (replacer s1) frame; Some (True, s1\<lparr>replacer := r\<rparr>) }
                     else Some (True, s1)) })"

text \<open>
  \<^verbatim>\<open>NewPageImpl\<close> returns the frame together with the page id it stored in \<^verbatim>\<open>*page_id\<close>; the
  output parameter is written on success only.
\<close>

definition NewPageImpl ::
  "('d::zero) BufferPoolManager \<Rightarrow> ((page_id_t \<times> frame_id_t) option \<times> 'd BufferPoolManager) option" where
  "NewPageImpl s =
     (case free_list s of
        free # rest \<Rightarrow>
          (case AllocatePage (disk_manager s) of
             (new_id, dm) \<Rightarrow>
               do { pg \<leftarrow> page_at s free;
                    r \<leftarrow> Pin (replacer s) free;
                    Some (Some (new_id, free),
                      set_page
                        (s\<lparr>free_list := rest, disk_manager := dm, replacer := r,
                           page_table := (page_table s)(new_id \<mapsto> free)\<rparr>)
                        free
                        (pg\<lparr>data := 0, page_id := new_id, pin_count := 1, is_dirty := False\<rparr>)) })
      | [] \<Rightarrow>
          (case Victim (replacer s) of
             (None, r) \<Rightarrow> Some (None, s\<lparr>replacer := r\<rparr>)
           | (Some candi, r) \<Rightarrow>
               do { let s1 = s\<lparr>replacer := r\<rparr>;
                    pg \<leftarrow> page_at s1 candi;
                    let evict_page = page_id pg;
                    (flu_suc, s2) \<leftarrow>
                      (if is_dirty pg then FlushPageImpl s1 evict_page else Some (True, s1));
                    if \<not> flu_suc then Some (None, s2)
                    else
                      (case AllocatePage (disk_manager s2) of
                         (new_id, dm) \<Rightarrow>
                           do { pg' \<leftarrow> page_at s2 candi;
                                r' \<leftarrow> Pin (replacer s2) candi;
                                Some (Some (new_id, candi),
                                  set_page
                                    (s2\<lparr>disk_manager := dm, replacer := r',
                                        page_table := ((page_table s2)(evict_page := None))(new_id \<mapsto> candi)\<rparr>)
                                    candi
                                    (pg'\<lparr>data := 0, page_id := new_id, pin_count := 1,
                                         is_dirty := False\<rparr>)) }) }))"





subsection \<open>The invariant of the buffer pool\<close>

text \<open>
  What the constructor establishes and every operation keeps: the frame array and the
  replacer have \<open>pool_size\<close> entries; a page table entry points to a frame that holds that
  page; the free list has no duplicates and its frames are unpinned and not in the page
  table; a frame in the replacer is unpinned and is either resident or on the free list; a
  resident frame with pin count 0 is in the replacer; pin counts are not negative; and every
  resident page id is below the next id the disk manager will hand out.
\<close>

definition frames_ok :: "'d BufferPoolManager \<Rightarrow> bool" where
  "frames_ok s \<longleftrightarrow>
     length (pages s) = pool_size s \<and> replacer_wf (replacer s) \<and>
     buffer_size (replacer s) = pool_size s"

definition table_ok :: "'d BufferPoolManager \<Rightarrow> bool" where
  "table_ok s \<longleftrightarrow>
     (\<forall>p f. page_table s p = Some f \<longrightarrow>
        0 \<le> f \<and> nat f < pool_size s \<and> page_id (pages s ! nat f) = p)"

definition free_ok :: "'d BufferPoolManager \<Rightarrow> bool" where
  "free_ok s \<longleftrightarrow>
     distinct (free_list s) \<and>
     (\<forall>f \<in> set (free_list s).
        0 \<le> f \<and> nat f < pool_size s \<and> (\<forall>p. page_table s p \<noteq> Some f) \<and>
        pin_count (pages s ! nat f) = 0)"

definition replacer_ok :: "'d BufferPoolManager \<Rightarrow> bool" where
  "replacer_ok s \<longleftrightarrow>
     (\<forall>i < pool_size s. in_f (replacer s) ! i \<longrightarrow>
        pin_count (pages s ! i) = 0 \<and>
        (int i \<in> set (free_list s) \<or> page_table s (page_id (pages s ! i)) = Some (int i)))"

definition evictable_ok :: "'d BufferPoolManager \<Rightarrow> bool" where
  "evictable_ok s \<longleftrightarrow>
     (\<forall>p f. page_table s p = Some f \<longrightarrow> pin_count (pages s ! nat f) = 0 \<longrightarrow>
        in_f (replacer s) ! nat f)"

definition pins_ok :: "'d BufferPoolManager \<Rightarrow> bool" where
  "pins_ok s \<longleftrightarrow> (\<forall>i < pool_size s. 0 \<le> pin_count (pages s ! i))"

definition ids_ok :: "'d BufferPoolManager \<Rightarrow> bool" where
  "ids_ok s \<longleftrightarrow> (\<forall>p f. page_table s p = Some f \<longrightarrow> p < next_page_id (disk_manager s))"

definition bpm_inv :: "'d BufferPoolManager \<Rightarrow> bool" where
  "bpm_inv s \<longleftrightarrow>
     frames_ok s \<and> table_ok s \<and> free_ok s \<and> replacer_ok s \<and> evictable_ok s \<and>
     pins_ok s \<and> ids_ok s"


subsection \<open>Sequences of operations\<close>




text \<open>\<^verbatim>\<open>FetchPage(p)\<close> followed by \<^verbatim>\<open>UnpinPage(p, false)\<close>, and \<^verbatim>\<open>DeletePage(p)\<close> alone.\<close>

definition fetch_then_unpin :: "page_id_t \<Rightarrow> 'd BufferPoolManager \<Rightarrow> 'd BufferPoolManager option" where
  "fetch_then_unpin pid s =
     do { (fetched, s1) \<leftarrow> FetchPageImpl s pid;
          (ok, s2) \<leftarrow> UnpinPageImpl s1 pid False;
          Some s2 }"


text \<open>
  Two pools over an empty disk. The first has one frame: page 0 is created and unpinned.
  The second has two frames: pages 0 and 1 are created and unpinned, then page 2 is
  created, which sweeps the clock, clears both ref bits and evicts page 0.
\<close>

definition empty_disk :: "nat DiskManager" where
  "empty_disk = \<lparr>disk_pages = (\<lambda>p. 0), next_page_id = 0\<rparr>"


definition swept_pool :: "nat BufferPoolManager option" where
  "swept_pool =
     do { (p0, s1) \<leftarrow> NewPageImpl (BufferPoolManager_new 2 empty_disk);
          (p1, s2) \<leftarrow> NewPageImpl s1;
          (ok0, s3) \<leftarrow> UnpinPageImpl s2 0 False;
          (ok1, s4) \<leftarrow> UnpinPageImpl s3 1 False;
          (p2, s5) \<leftarrow> NewPageImpl s4;
          Some s5 }"


section \<open>The linear probe hash table (linear\_probe\_hash\_table.cpp)\<close>

text \<open>
  Modelled from the spec: the header page class (\<^verbatim>\<open>hash_table_header_page.cpp\<close>) is not among
  the sources. The specification describes it as the record of its own page id, the number
  of buckets fixed at construction, and the ordered sequence of block page ids, which grows
  on demand; \<^verbatim>\<open>NumBlocks\<close> is the length of that sequence, and an index with no block
  registered yields the sentinel \<^verbatim>\<open>INVALID_PAGE_ID\<close>, which is what \<^verbatim>\<open>GetValue\<close> and
  \<^verbatim>\<open>Remove\<close> test for.
\<close>

record HashTableHeaderPage =
  h_page_id :: page_id_t
  h_size :: nat
  block_page_ids :: "page_id_t list"

definition GetSize :: "HashTableHeaderPage \<Rightarrow> nat" where
  "GetSize h = h_size h"

definition SetSize :: "HashTableHeaderPage \<Rightarrow> nat \<Rightarrow> HashTableHeaderPage" where
  "SetSize h n = h\<lparr>h_size := n\<rparr>"

definition SetPageId :: "HashTableHeaderPage \<Rightarrow> page_id_t \<Rightarrow> HashTableHeaderPage" where
  "SetPageId h p = h\<lparr>h_page_id := p\<rparr>"

definition NumBlocks :: "HashTableHeaderPage \<Rightarrow> nat" where
  "NumBlocks h = length (block_page_ids h)"

definition AddBlockPageId :: "HashTableHeaderPage \<Rightarrow> page_id_t \<Rightarrow> HashTableHeaderPage" where
  "AddBlockPageId h p = h\<lparr>block_page_ids := block_page_ids h @ [p]\<rparr>"

definition GetBlockPageId :: "HashTableHeaderPage \<Rightarrow> nat \<Rightarrow> page_id_t" where
  "GetBlockPageId h idx =
     (if idx < length (block_page_ids h) then block_page_ids h ! idx else INVALID_PAGE_ID)"

text \<open>
  The bytes of a page of the index. The table reads a frame through
  \<^verbatim>\<open>reinterpret_cast\<close>: a zeroed page read as a header page has size 0 and no blocks, read
  as a block page it has every slot free; reading the bytes of a header page as a block
  page, or the reverse, depends on the memory layout and has no value here.
\<close>

datatype ('k, 'v) page_data =
  Zeroed | HeaderData HashTableHeaderPage | BlockData "('k, 'v) HashTableBlockPage"

instantiation page_data :: (type, type) zero
begin

definition zero_page_data :: "('a, 'b) page_data" where
  "zero_page_data = Zeroed"

instance ..

end

fun as_header :: "('k, 'v) page_data \<Rightarrow> HashTableHeaderPage option" where
  "as_header Zeroed = Some \<lparr>h_page_id = 0, h_size = 0, block_page_ids = []\<rparr>"
| "as_header (HeaderData h) = Some h"
| "as_header (BlockData b) = None"

fun as_block :: "nat \<Rightarrow> ('k::zero, 'v::zero) page_data \<Rightarrow> ('k, 'v) HashTableBlockPage option" where
  "as_block B Zeroed = Some (zero_block B)"
| "as_block B (BlockData b) = Some b"
| "as_block B (HeaderData h) = None"

text \<open>
  Reading and writing through a \<^verbatim>\<open>Page *\<close> that was cast to a header or block page: the
  pointer is the frame, \<^verbatim>\<open>nullptr\<close> has no frame.
\<close>

definition header_at ::
  "('k, 'v) page_data BufferPoolManager \<Rightarrow> frame_id_t \<Rightarrow> HashTableHeaderPage option" where
  "header_at s f = do { pg \<leftarrow> page_at s f; as_header (data pg) }"

definition block_at ::
  "nat \<Rightarrow> ('k::zero, 'v::zero) page_data BufferPoolManager \<Rightarrow> frame_id_t \<Rightarrow>
   ('k, 'v) HashTableBlockPage option" where
  "block_at B s f = do { pg \<leftarrow> page_at s f; as_block B (data pg) }"

definition set_data :: "'d BufferPoolManager \<Rightarrow> frame_id_t \<Rightarrow> 'd \<Rightarrow> 'd BufferPoolManager" where
  "set_data s f bytes = set_page s f ((pages s ! nat f)\<lparr>data := bytes\<rparr>)"

text \<open>
  The table object: the id of its header page, the hash function (the 64-bit value of
  \<^verbatim>\<open>hash_fn_.GetHash\<close>, as a natural number) and \<^verbatim>\<open>BLOCK_ARRAY_SIZE\<close>, a macro of a header
  that is not among the sources, fixed per instance of the template. The buffer pool
  manager the table points to is passed to each operation and returned. The transaction
  argument and the table latch are not modelled.
\<close>

record 'k LinearProbeHashTable =
  header_page_id :: page_id_t
  hash_fn :: "'k \<Rightarrow> nat"
  BLOCK_ARRAY_SIZE :: nat

definition LinearProbeHashTable_new ::
  "('k, 'v) page_data BufferPoolManager \<Rightarrow> nat \<Rightarrow> ('k \<Rightarrow> nat) \<Rightarrow> nat \<Rightarrow>
   ('k LinearProbeHashTable \<times> ('k, 'v) page_data BufferPoolManager) option" where
  "LinearProbeHashTable_new bpm num_buckets hash B =
     do { (res, s1) \<leftarrow> NewPageImpl bpm;
          (hid, hf) \<leftarrow> res;
          header \<leftarrow> header_at s1 hf;
          let s2 = set_data s1 hf (HeaderData (SetPageId (SetSize header num_buckets) hid));
          (ok, s3) \<leftarrow> UnpinPageImpl s2 hid True;
          Some (\<lparr>header_page_id = hid, hash_fn = hash, BLOCK_ARRAY_SIZE = B\<rparr>, s3) }"

text \<open>
  \<^verbatim>\<open>hashVal % num_buckets\<close> and \<^verbatim>\<open>hashVal % BLOCK_ARRAY_SIZE\<close> are undefined for a zero
  divisor. No result of \<^verbatim>\<open>FetchPage\<close> is checked against \<^verbatim>\<open>nullptr\<close> before it is used.
\<close>

definition GetValue ::
  "'k LinearProbeHashTable \<Rightarrow> ('k::zero, 'v::zero) page_data BufferPoolManager \<Rightarrow> 'k \<Rightarrow> 'v list \<Rightarrow>
   ((bool \<times> 'v list) \<times> ('k, 'v) page_data BufferPoolManager) option" where
  "GetValue ht s key result =
     do { (hres, s1) \<leftarrow> FetchPageImpl s (header_page_id ht);
          hf \<leftarrow> hres;
          header \<leftarrow> header_at s1 hf;
          let num_buckets = GetSize header;
          let hashVal = hash_fn ht key;
          if num_buckets = 0 \<or> BLOCK_ARRAY_SIZE ht = 0 then None
          else
            do { let idx = hashVal mod num_buckets;
                 let offset = hashVal mod BLOCK_ARRAY_SIZE ht;
                 let bucket_id = GetBlockPageId header idx;
                 if bucket_id \<noteq> INVALID_PAGE_ID then
                   do { (bres, s2) \<leftarrow> FetchPageImpl s1 bucket_id;
                        bf \<leftarrow> bres;
                        bucket \<leftarrow> block_at (BLOCK_ARRAY_SIZE ht) s2 bf;
                        let (result', rtn) =
                          GetValue_loop (BLOCK_ARRAY_SIZE ht) bucket key offset result False;
                        (ok1, s3) \<leftarrow> UnpinPageImpl s2 bucket_id False;
                        (ok2, s4) \<leftarrow> UnpinPageImpl s3 (header_page_id ht) False;
                        Some ((rtn, result'), s4) }
                 else
                   do { (ok2, s2) \<leftarrow> UnpinPageImpl s1 (header_page_id ht) False;
                        Some ((False, result), s2) } } }"

text \<open>
  The first loop of \<^verbatim>\<open>Insert\<close> registers new block pages until the header has an entry for
  \<open>idx\<close>. It reads and writes the header through the pointer each time round, and uses
  \<^verbatim>\<open>tmp\<close> whether or not \<^verbatim>\<open>NewPage\<close> has set it. Nothing in the loop itself bounds the
  number of rounds.
\<close>

partial_function (option) Insert_grow ::
  "('k, 'v) page_data BufferPoolManager \<Rightarrow> frame_id_t \<Rightarrow> nat \<Rightarrow>
   ('k, 'v) page_data BufferPoolManager option" where
  "Insert_grow s hf idx =
     do { header \<leftarrow> header_at s hf;
          if NumBlocks header \<le> idx then
            do { (res, s1) \<leftarrow> NewPageImpl s;
                 (tmp, tf) \<leftarrow> res;
                 header1 \<leftarrow> header_at s1 hf;
                 let s2 = set_data s1 hf (HeaderData (AddBlockPageId header1 tmp));
                 (ok, s3) \<leftarrow> UnpinPageImpl s2 tmp False;
                 Insert_grow s3 hf idx }
          else Some s }"

declare Insert_grow.simps [code]

definition Insert ::
  "'k LinearProbeHashTable \<Rightarrow> ('k::zero, 'v::zero) page_data BufferPoolManager \<Rightarrow> 'k \<Rightarrow> 'v \<Rightarrow>
   (bool \<times> ('k, 'v) page_data BufferPoolManager) option" where
  "Insert ht s key val =
     do { (hres, s1) \<leftarrow> FetchPageImpl s (header_page_id ht);
          hf \<leftarrow> hres;
          header0 \<leftarrow> header_at s1 hf;
          let num_buckets = GetSize header0;
          let hashVal = hash_fn ht key;
          if num_buckets = 0 \<or> BLOCK_ARRAY_SIZE ht = 0 then None
          else
            do { let idx = hashVal mod num_buckets;
                 let offset = hashVal mod BLOCK_ARRAY_SIZE ht;
                 s2 \<leftarrow> Insert_grow s1 hf idx;
                 header \<leftarrow> header_at s2 hf;
                 let bucket_id = GetBlockPageId header idx;
                 (bres, s3) \<leftarrow> FetchPageImpl s2 bucket_id;
                 bf \<leftarrow> bres;
                 bucket \<leftarrow> block_at (BLOCK_ARRAY_SIZE ht) s3 bf;
                 (ins_suc, bucket') \<leftarrow>
                   Insert_loop (BLOCK_ARRAY_SIZE ht) bucket key val offset False;
                 let s4 = set_data s3 bf (BlockData bucket');
                 (ok1, s5) \<leftarrow> UnpinPageImpl s4 bucket_id True;
                 (ok2, s6) \<leftarrow> UnpinPageImpl s5 (header_page_id ht) True;
                 Some (ins_suc, s6) } }"

text \<open>
  \<^verbatim>\<open>Remove\<close> fetches the bucket page before it looks at \<^verbatim>\<open>bucket_id\<close>, and returns at once
  when that is \<^verbatim>\<open>INVALID_PAGE_ID\<close>.
\<close>

definition Remove ::
  "'k LinearProbeHashTable \<Rightarrow> ('k::zero, 'v::zero) page_data BufferPoolManager \<Rightarrow> 'k \<Rightarrow> 'v \<Rightarrow>
   (bool \<times> ('k, 'v) page_data BufferPoolManager) option" where
  "Remove ht s key val =
     do { (hres, s1) \<leftarrow> FetchPageImpl s (header_page_id ht);
          hf \<leftarrow> hres;
          header \<leftarrow> header_at s1 hf;
          let num_buckets = GetSize header;
          let hashVal = hash_fn ht key;
          if num_buckets = 0 \<or> BLOCK_ARRAY_SIZE ht = 0 then None
          else
            do { let idx = hashVal mod num_buckets;
                 let offset = hashVal mod BLOCK_ARRAY_SIZE ht;
                 let bucket_id = GetBlockPageId header idx;
                 (bres, s2) \<leftarrow> FetchPageImpl s1 bucket_id;
                 if bucket_id = INVALID_PAGE_ID then Some (False, s2)
                 else
                   do { bf \<leftarrow> bres;
                        bucket \<leftarrow> block_at (BLOCK_ARRAY_SIZE ht) s2 bf;
                        let (bucket', offset') =
                          Remove_loop (BLOCK_ARRAY_SIZE ht) bucket key val offset;
                        let s3 = set_data s2 bf (BlockData bucket');
                        (ok1, s4) \<leftarrow> UnpinPageImpl s3 bucket_id True;
                        (ok2, s5) \<leftarrow> UnpinPageImpl s4 (header_page_id ht) False;
                        Some (offset' < BLOCK_ARRAY_SIZE ht, s5) } } }"

definition GetSize_table ::
  "'k LinearProbeHashTable \<Rightarrow> ('k, 'v) page_data BufferPoolManager \<Rightarrow>
   (nat \<times> ('k, 'v) page_data BufferPoolManager) option" where
  "GetSize_table ht s =
     do { (hres, s1) \<leftarrow> FetchPageImpl s (header_page_id ht);
          hf \<leftarrow> hres;
          header \<leftarrow> header_at s1 hf;
          let cnt = NumBlocks header;
          (ok, s2) \<leftarrow> UnpinPageImpl s1 (header_page_id ht) False;
          Some (cnt, s2) }"

subsection \<open>A table on a pool of three frames\<close>

text \<open>
  An index of natural numbers with the identity as hash function, two buckets and four
  slots to the block page, over an empty disk, as the constructor leaves it; the same table
  after \<^verbatim>\<open>Insert(5, 7)\<close> and \<^verbatim>\<open>Insert(5, 8)\<close>; and the state of the pool this gives,
  written out: header page 0 in frame 0, the block pages 1 and 2 in frames 1 and 2, the
  two pairs in slots 1 and 2 of page 2, nothing pinned.
\<close>

definition index_disk :: "(nat, nat) page_data DiskManager" where
  "index_disk = \<lparr>disk_pages = (\<lambda>p. Zeroed), next_page_id = 0\<rparr>"

definition fresh_table ::
  "(nat LinearProbeHashTable \<times> (nat, nat) page_data BufferPoolManager) option" where
  "fresh_table = LinearProbeHashTable_new (BufferPoolManager_new 3 index_disk) 2 id 4"

definition example_table :: "nat LinearProbeHashTable" where
  "example_table = \<lparr>header_page_id = 0, hash_fn = id, BLOCK_ARRAY_SIZE = 4\<rparr>"

definition filled_pool :: "(nat, nat) page_data BufferPoolManager option" where
  "filled_pool =
     do { (ht, s0) \<leftarrow> fresh_table;
          (ok1, s1) \<leftarrow> Insert ht s0 5 7;
          (ok2, s2) \<leftarrow> Insert ht s1 5 8;
          Some s2 }"

definition example_header :: HashTableHeaderPage where
  "example_header = \<lparr>h_page_id = 0, h_size = 2, block_page_ids = [1, 2]\<rparr>"

definition example_bucket :: "(nat, nat) HashTableBlockPage" where
  "example_bucket =
     \<lparr>occupied = [6], readable = [6], array = [(0, 0), (5, 7), (5, 8), (0, 0)]\<rparr>"

definition indexed_pool :: "(nat, nat) page_data BufferPoolManager" where
  "indexed_pool =
     \<lparr>pool_size = 3,
      pages =
        [\<lparr>data = HeaderData example_header, page_id = 0, pin_count = 0, is_dirty = True\<rparr>,
         \<lparr>data = Zeroed, page_id = 1, pin_count = 0, is_dirty = False\<rparr>,
         \<lparr>data = BlockData example_bucket, page_id = 2, pin_count = 0, is_dirty = True\<rparr>],
      disk_manager = \<lparr>disk_pages = (\<lambda>p. Zeroed), next_page_id = 3\<rparr>,
      page_table = [0 \<mapsto> 0, 1 \<mapsto> 1, 2 \<mapsto> 2],
      replacer =
        \<lparr>clock_hand = 0, buffer_size = 3, ref_f = [True, True, True],
         in_f = [True, True, True]\<rparr>,
      free_list = []\<rparr>"

text \<open>
  The same pool with block page 1 replaced by a page whose only entry, \<open>(4, 9)\<close>, sits in
  slot 2 behind two slots that were never occupied.
\<close>

definition gapped_bucket :: "(nat, nat) HashTableBlockPage" where
  "gapped_bucket =
     \<lparr>occupied = [4], readable = [4], array = [(0, 0), (0, 0), (4, 9), (0, 0)]\<rparr>"

definition gapped_pool :: "(nat, nat) page_data BufferPoolManager" where
  "gapped_pool = set_data indexed_pool 1 (BlockData gapped_bucket)"

text \<open>What can be compared of a pool: everything but the two functions, which are sampled.\<close>

definition pool_view ::
  "'d BufferPoolManager \<Rightarrow>
   nat \<times> 'd Page list \<times> ClockReplacer \<times> frame_id_t list \<times> frame_id_t option list \<times> page_id_t \<times> 'd list" where
  "pool_view s =
     (pool_size s, pages s, replacer s, free_list s, map (page_table s) [-1, 0, 1, 2, 3],
      next_page_id (disk_manager s), map (disk_pages (disk_manager s)) [-1, 0, 1, 2, 3])"

definition pin_counts :: "'d BufferPoolManager \<Rightarrow> int list" where
  "pin_counts s = map pin_count (pages s)"

section \<open>Properties of the clock replacer\<close>

subsection \<open>Sweep positions\<close>

text \<open>
  The sweep visits the positions \<open>(clock_hand + i) mod buffer_size\<close> for
  \<open>i = 0, \<dots>, buffer_size - 1\<close>: they are pairwise distinct and cover every frame.
\<close>


lemma pos_inj:
  fixes h i j N :: nat
  assumes "i < j" "j < N"
  shows "(h + i) mod N \<noteq> (h + j) mod N"
proof
  assume "(h + i) mod N = (h + j) mod N"
  then have "(h + j) mod N = (h + i) mod N" by simp
  then have "N dvd (h + j) - (h + i)"
    using assms by (simp add: mod_eq_dvd_iff_nat)
  then have "N dvd j - i" by simp
  moreover have "0 < j - i" "j - i < N" using assms by auto
  ultimately show False using nat_dvd_not_less by blast
qed

lemma pos_surj:
  fixes h k N :: nat
  assumes "k < N"
  shows "\<exists>j<N. (h + j) mod N = k"
proof -
  let ?j = "(k + (N - h mod N)) mod N"
  have "h mod N < N" using assms by simp
  then have e: "h mod N + (k + (N - h mod N)) = k + N" by simp
  have "(h + ?j) mod N = (h + (k + (N - h mod N))) mod N"
    by (simp add: mod_add_right_eq)
  also have "\<dots> = (h mod N + (k + (N - h mod N))) mod N"
    by (simp add: mod_add_left_eq)
  also have "\<dots> = k" using assms by (simp only: e) simp
  finally have "(h + ?j) mod N = k" .
  moreover have "?j < N" using assms by simp
  ultimately show ?thesis by blast
qed

subsection \<open>The sweep\<close>



lemma Victim_loop_shape:
  "Victim_loop r i c = (res, fid, c', r') \<Longrightarrow>
     buffer_size r' = buffer_size r \<and> length (in_f r') = length (in_f r) \<and>
     length (ref_f r') = length (ref_f r) \<and>
     (\<not> res \<longrightarrow> fid = None \<and> in_f r' = in_f r \<and> clock_hand r' = clock_hand r)"
proof (induction r i c rule: Victim_loop.induct)
  case (1 r i candi)
  show ?case
    using "1.prems" "1.IH"
    by (subst (asm) Victim_loop.simps) (auto simp: Let_def split: if_splits)
qed

lemma Victim_loop_found:
  "Victim_loop r i c = (True, fid, c', r') \<Longrightarrow>
     \<exists>j. i \<le> j \<and> j < buffer_size r \<and>
       fid = Some (int ((clock_hand r + j) mod buffer_size r)) \<and>
       in_f r ! ((clock_hand r + j) mod buffer_size r)"
proof (induction r i c rule: Victim_loop.induct)
  case (1 r i candi)
  show ?case
    using "1.prems" "1.IH"
    apply (subst (asm) Victim_loop.simps)
    apply (auto simp: Let_def split: if_splits)
    apply (metis Suc_leD)+
    done
qed

lemma Victim_loop_not_found:
  "Victim_loop r i c = (False, fid, c', r') \<Longrightarrow>
     (c \<noteq> -1 \<longrightarrow> c' = c) \<and>
     (c = -1 \<longrightarrow>
        (c' = -1 \<and> (\<forall>j. i \<le> j \<and> j < buffer_size r \<longrightarrow>
                       \<not> in_f r ! ((clock_hand r + j) mod buffer_size r))) \<or>
        (\<exists>j. i \<le> j \<and> j < buffer_size r \<and>
              c' = int ((clock_hand r + j) mod buffer_size r) \<and>
              in_f r ! ((clock_hand r + j) mod buffer_size r) \<and>
              (\<forall>j'. i \<le> j' \<and> j' < j \<longrightarrow>
                 \<not> in_f r ! ((clock_hand r + j') mod buffer_size r))))"
proof (induction r i c rule: Victim_loop.induct)
  case (1 r i candi)
  let ?N = "buffer_size r"
  let ?p = "\<lambda>j. (clock_hand r + j) mod ?N"
  show ?case
  proof (cases "i < ?N")
    case False
    with "1.prems" show ?thesis
      by (subst (asm) Victim_loop.simps) auto
  next
    case lt: True
    show ?thesis
    proof (cases "in_f r ! ?p i")
      case nin: False
      then have step: "Victim_loop r (i + 1) candi = (False, fid, c', r')"
        using "1.prems" lt by (subst (asm) Victim_loop.simps) (simp add: Let_def)
      have IH: "(candi \<noteq> -1 \<longrightarrow> c' = candi) \<and>
     (candi = -1 \<longrightarrow>
        (c' = -1 \<and> (\<forall>j. i + 1 \<le> j \<and> j < ?N \<longrightarrow> \<not> in_f r ! ?p j)) \<or>
        (\<exists>j. i + 1 \<le> j \<and> j < ?N \<and> c' = int (?p j) \<and> in_f r ! ?p j \<and>
              (\<forall>j'. i + 1 \<le> j' \<and> j' < j \<longrightarrow> \<not> in_f r ! ?p j')))"
        using "1.IH"(2)[OF lt refl _ _ step] nin by simp
      have ext: "\<And>j. i \<le> j \<Longrightarrow> in_f r ! ?p j \<Longrightarrow> i + 1 \<le> j"
        using nin by (metis Suc_eq_plus1 Suc_leI le_neq_implies_less)
      show ?thesis
      proof (cases "candi = -1")
        case False
        with IH show ?thesis by simp
      next
        case True
        with IH consider
          (a) "c' = -1" "\<forall>j. i + 1 \<le> j \<and> j < ?N \<longrightarrow> \<not> in_f r ! ?p j"
          | (b) j where "i + 1 \<le> j" "j < ?N" "c' = int (?p j)" "in_f r ! ?p j"
              "\<forall>j'. i + 1 \<le> j' \<and> j' < j \<longrightarrow> \<not> in_f r ! ?p j'"
          by blast
        then show ?thesis
        proof cases
          case a
          then show ?thesis using True ext by blast
        next
          case b
          have "\<forall>j'. i \<le> j' \<and> j' < j \<longrightarrow> \<not> in_f r ! ?p j'"
            using b(5) ext by blast
          moreover have "i \<le> j" using b(1) by simp
          ultimately show ?thesis using True b by blast
        qed
      qed
    next
      case inn: True
      with "1.prems" lt have rf: "ref_f r ! ?p i"
        by (subst (asm) Victim_loop.simps) (auto simp: Let_def split: if_splits)
      let ?r2 = "r\<lparr>ref_f := (ref_f r)[?p i := False]\<rparr>"
      let ?c2 = "if candi = -1 then int (?p i) else candi"
      have step: "Victim_loop ?r2 (i + 1) ?c2 = (False, fid, c', r')"
        using "1.prems" lt inn rf by (subst (asm) Victim_loop.simps) (simp add: Let_def)
      have "?c2 \<noteq> -1" by simp
      moreover have "(?c2 \<noteq> -1 \<longrightarrow> c' = ?c2)"
        using "1.IH"(1)[OF lt refl _ _ step] inn rf by simp
      ultimately have c': "c' = ?c2" by blast
      show ?thesis
      proof (cases "candi = -1")
        case False
        with c' show ?thesis by simp
      next
        case True
        then have "c' = int (?p i)" using c' by simp
        then show ?thesis using True lt inn by auto
      qed
    qed
  qed
qed

lemma Victim_loop_all_ref:
  "length (ref_f r) = buffer_size r \<Longrightarrow>
   \<forall>j. i \<le> j \<and> j < buffer_size r \<longrightarrow>
       in_f r ! ((clock_hand r + j) mod buffer_size r) \<longrightarrow>
       ref_f r ! ((clock_hand r + j) mod buffer_size r) \<Longrightarrow>
   fst (Victim_loop r i c) = False"
proof (induction r i c rule: Victim_loop.induct)
  case (1 r i candi)
  let ?N = "buffer_size r"
  let ?p = "\<lambda>j. (clock_hand r + j) mod ?N"
  show ?case
  proof (cases "i < ?N")
    case False
    then show ?thesis by (subst Victim_loop.simps) simp
  next
    case lt: True
    show ?thesis
    proof (cases "in_f r ! ?p i")
      case False
      then have "Victim_loop r i candi = Victim_loop r (i + 1) candi"
        using lt by (subst Victim_loop.simps) (simp add: Let_def)
      moreover have "fst (Victim_loop r (i + 1) candi) = False"
        using "1.IH"(2)[OF lt refl] False "1.prems" by simp
      ultimately show ?thesis by simp
    next
      case inn: True
      then have rf: "ref_f r ! ?p i" using "1.prems"(2) lt by simp
      let ?r2 = "r\<lparr>ref_f := (ref_f r)[?p i := False]\<rparr>"
      let ?c2 = "if candi = -1 then int (?p i) else candi"
      have eq: "Victim_loop r i candi = Victim_loop ?r2 (i + 1) ?c2"
        using lt inn rf by (subst Victim_loop.simps) (simp add: Let_def)
      have "\<forall>j. i + 1 \<le> j \<and> j < ?N \<longrightarrow> in_f r ! ?p j \<longrightarrow> (ref_f r)[?p i := False] ! ?p j"
      proof (intro allI impI)
        fix j assume j: "i + 1 \<le> j \<and> j < ?N" and "in_f r ! ?p j"
        then have "ref_f r ! ?p j" using "1.prems"(2) by simp
        moreover have "?p i \<noteq> ?p j" using j pos_inj[of i j ?N "clock_hand r"] by simp
        ultimately show "(ref_f r)[?p i := False] ! ?p j" by simp
      qed
      then have "fst (Victim_loop ?r2 (i + 1) ?c2) = False"
        using "1.IH"(1)[OF lt refl] inn rf "1.prems"(1) by simp
      with eq show ?thesis by simp
    qed
  qed
qed



lemma Size_loop_count:
  "Size_loop r i c = c + length (filter (\<lambda>k. in_f r ! k) [i..<buffer_size r])"
proof (induction r i c rule: Size_loop.induct)
  case (1 r i counter)
  show ?case
  proof (cases "i < buffer_size r")
    case True
    then have "[i..<buffer_size r] = i # [i + 1..<buffer_size r]"
      by (simp add: upt_conv_Cons)
    then show ?thesis
      using "1.IH"[OF True] True by (subst Size_loop.simps) simp
  next
    case False
    then show ?thesis by (subst Size_loop.simps) simp
  qed
qed

lemma Size_pos_iff: "0 < Size r \<longleftrightarrow> (\<exists>k<buffer_size r. in_f r ! k)"
  by (auto simp: Size_def Size_loop_count filter_empty_conv)

lemma Victim_None_iff:
  assumes "replacer_wf r"
  shows "fst (Victim r) = None \<longleftrightarrow> (\<forall>k<buffer_size r. \<not> in_f r ! k)"
proof -
  obtain res fid c' r' where L: "Victim_loop r 0 (-1) = (res, fid, c', r')"
    by (metis prod_cases4)
  let ?N = "buffer_size r"
  let ?p = "\<lambda>j. (clock_hand r + j) mod ?N"
  have cover: "(\<forall>j<?N. \<not> in_f r ! ?p j) \<longleftrightarrow> (\<forall>k<?N. \<not> in_f r ! k)"
  proof
    assume a: "\<forall>j<?N. \<not> in_f r ! ?p j"
    show "\<forall>k<?N. \<not> in_f r ! k"
    proof (intro allI impI)
      fix k assume "k < ?N"
      then obtain j where "j < ?N" "?p j = k" using pos_surj by blast
      with a show "\<not> in_f r ! k" by auto
    qed
  next
    assume a: "\<forall>k<?N. \<not> in_f r ! k"
    show "\<forall>j<?N. \<not> in_f r ! ?p j"
    proof (intro allI impI)
      fix j assume "j < ?N"
      then have "?p j < ?N" by simp
      with a show "\<not> in_f r ! ?p j" by blast
    qed
  qed
  show ?thesis
  proof (cases res)
    case True
    with L obtain j where "j < ?N" "fid = Some (int (?p j))" "in_f r ! ?p j"
      using Victim_loop_found[of r 0 "-1" fid c' r'] by auto
    then show ?thesis using L True cover by (auto simp: Victim_def)
  next
    case False
    with L have nf: "Victim_loop r 0 (-1) = (False, fid, c', r')" by simp
    from Victim_loop_not_found[OF nf]
    consider (a) "c' = -1" "\<forall>j<?N. \<not> in_f r ! ?p j"
      | (b) j where "j < ?N" "c' = int (?p j)" "in_f r ! ?p j"
      by auto
    then show ?thesis
    proof cases
      case a
      then show ?thesis using nf cover by (simp add: Victim_def)
    next
      case b
      then have "c' \<noteq> -1" by simp
      then show ?thesis using nf b cover by (auto simp: Victim_def)
    qed
  qed
qed

lemma Victim_fallback:
  assumes wf: "replacer_wf r"
    and ex: "\<exists>k<buffer_size r. in_f r ! k"
    and allref: "\<forall>k<buffer_size r. in_f r ! k \<longrightarrow> ref_f r ! k"
  shows "\<exists>j<buffer_size r.
           fst (Victim r) = Some (int ((clock_hand r + j) mod buffer_size r)) \<and>
           in_f r ! ((clock_hand r + j) mod buffer_size r) \<and>
           (\<forall>j'<j. \<not> in_f r ! ((clock_hand r + j') mod buffer_size r)) \<and>
           \<not> in_f (snd (Victim r)) ! ((clock_hand r + j) mod buffer_size r)"
proof -
  let ?N = "buffer_size r"
  let ?p = "\<lambda>j. (clock_hand r + j) mod ?N"
  have len: "length (ref_f r) = ?N" "length (in_f r) = ?N"
    using wf by (simp_all add: replacer_wf_def)
  have N: "0 < ?N" using ex by auto
  have "\<forall>j. 0 \<le> j \<and> j < ?N \<longrightarrow> in_f r ! ?p j \<longrightarrow> ref_f r ! ?p j"
    using allref N by simp
  then have "fst (Victim_loop r 0 (-1)) = False"
    by (rule Victim_loop_all_ref[OF len(1)])
  then obtain fid c' r' where nf: "Victim_loop r 0 (-1) = (False, fid, c', r')"
    by (metis fst_conv prod_cases4)
  have sh: "buffer_size r' = ?N" "in_f r' = in_f r"
    using Victim_loop_shape[OF nf] by simp_all
  have "fst (Victim r) \<noteq> None" using Victim_None_iff[OF wf] ex by blast
  then have "c' \<noteq> -1" using nf by (auto simp: Victim_def)
  with Victim_loop_not_found[OF nf]
  obtain j where j: "j < ?N" "c' = int (?p j)" "in_f r ! ?p j"
    "\<forall>j'<j. \<not> in_f r ! ?p j'"
    by auto
  have "fst (Victim r) = Some (int (?p j))"
    using nf j by (simp add: Victim_def)
  moreover have "\<not> in_f (snd (Victim r)) ! ?p j"
    using nf j sh len N by (simp add: Victim_def)
  ultimately show ?thesis using j by blast
qed


subsection \<open>Pin and Unpin\<close>


lemma int32_of_size_small: "n < 2 ^ 31 \<Longrightarrow> int32_of_size n = int n"
  unfolding int32_of_size_def
  apply (simp add: signed_of_nat signed_take_bit_int_eq_self)
  done

lemma Pin_above:
  "replacer_wf r \<Longrightarrow> int (buffer_size r) \<le> f \<Longrightarrow> Pin r f = Some r"
  by (simp add: Pin_def replacer_wf_def int32_of_size_small)

lemma Unpin_above:
  "replacer_wf r \<Longrightarrow> int (buffer_size r) \<le> f \<Longrightarrow> Unpin r f = Some r"
  by (simp add: Unpin_def replacer_wf_def int32_of_size_small)

lemma Pin_in_range:
  "replacer_wf r \<Longrightarrow> 0 \<le> f \<Longrightarrow> f < int (buffer_size r) \<Longrightarrow>
   Pin r f = Some (r\<lparr>in_f := (in_f r)[nat f := False]\<rparr>)"
  by (simp add: Pin_def replacer_wf_def int32_of_size_small)

lemma Unpin_in_range:
  "replacer_wf r \<Longrightarrow> 0 \<le> f \<Longrightarrow> f < int (buffer_size r) \<Longrightarrow>
   Unpin r f = Some (r\<lparr>in_f := (in_f r)[nat f := True], ref_f := (ref_f r)[nat f := True]\<rparr>)"
  by (simp add: Unpin_def replacer_wf_def int32_of_size_small)

lemma Pin_below:
  "replacer_wf r \<Longrightarrow> f < 0 \<Longrightarrow> 0 < buffer_size r \<Longrightarrow> Pin r f = None"
  by (simp add: Pin_def replacer_wf_def int32_of_size_small)

lemma Unpin_below:
  "replacer_wf r \<Longrightarrow> f < 0 \<Longrightarrow> 0 < buffer_size r \<Longrightarrow> Unpin r f = None"
  by (simp add: Unpin_def replacer_wf_def int32_of_size_small)

lemma Pin_wf: "replacer_wf r \<Longrightarrow> Pin r f = Some r' \<Longrightarrow> replacer_wf r'"
  by (auto simp: Pin_def replacer_wf_def split: if_splits)

lemma Unpin_wf: "replacer_wf r \<Longrightarrow> Unpin r f = Some r' \<Longrightarrow> replacer_wf r'"
  by (auto simp: Unpin_def replacer_wf_def split: if_splits)

lemma Pin_idem:
  "replacer_wf r \<Longrightarrow> Pin r f = Some r' \<Longrightarrow> Pin r' f = Some r'"
  by (auto simp: Pin_def replacer_wf_def split: if_splits)

lemma Unpin_idem:
  "replacer_wf r \<Longrightarrow> Unpin r f = Some r' \<Longrightarrow> Unpin r' f = Some r'"
  by (auto simp: Unpin_def replacer_wf_def split: if_splits)

lemma ClockReplacer_new_wf: "n < 2 ^ 31 \<Longrightarrow> replacer_wf (ClockReplacer_new n)"
  by (simp add: replacer_wf_def ClockReplacer_new_def)

lemma Victim_loop_found_hand:
  "Victim_loop r i c = (True, fid, c', r') \<Longrightarrow> clock_hand r' < buffer_size r"
proof (induction r i c rule: Victim_loop.induct)
  case (1 r i candi)
  show ?case
    using "1.prems" "1.IH"
    by (subst (asm) Victim_loop.simps) (auto simp: Let_def split: if_splits)
qed

lemma Victim_wf: "replacer_wf r \<Longrightarrow> replacer_wf (snd (Victim r))"
proof -
  assume wf: "replacer_wf r"
  obtain res fid c' r' where L: "Victim_loop r 0 (-1) = (res, fid, c', r')"
    by (metis prod_cases4)
  have sh: "buffer_size r' = buffer_size r" "length (in_f r') = length (in_f r)"
    "length (ref_f r') = length (ref_f r)"
    using Victim_loop_shape[OF L] by simp_all
  show ?thesis
  proof (cases res)
    case True
    then have "clock_hand r' < buffer_size r"
      using Victim_loop_found_hand[of r 0 "-1" fid c' r'] L by simp
    then show ?thesis using wf sh L True by (simp add: Victim_def replacer_wf_def)
  next
    case False
    then have nf: "Victim_loop r 0 (-1) = (False, fid, c', r')" using L by simp
    have "c' \<noteq> -1 \<Longrightarrow> 0 < buffer_size r"
      using Victim_loop_not_found[OF nf] by auto
    moreover have "clock_hand r' = clock_hand r" using Victim_loop_shape[OF nf] by simp
    ultimately show ?thesis using wf sh nf by (auto simp: Victim_def replacer_wf_def)
  qed
qed


lemma S4_replacer_eq:
  "S4_replacer = Some \<lparr>clock_hand = 0, buffer_size = 3,
     ref_f = [True, True, True], in_f = [True, True, True]\<rparr>"
  by (simp add: S4_replacer_def Unpin_def ClockReplacer_new_def int32_of_size_def numeral_3_eq_3)

subsection \<open>Claims about the replacer\<close>

text \<open>
  Claim C4, as stated: in scenario S4 the first \<^verbatim>\<open>Victim\<close> clears frame 0's ref bit and
  returns frame 1. It does not: \<^verbatim>\<open>Unpin\<close> sets the ref bit of every frame it is called
  on, so after the four calls all three frames are referenced, the sweep finds no frame
  with a clear ref bit, and the result is not frame 1.
\<close>

theorem S4_victim_is_not_frame_1:
  "map_option (fst \<circ> Victim) S4_replacer \<noteq> Some (Some 1)"
  by (simp add: S4_replacer_eq Victim_def Victim_loop.simps)

text \<open>
  Claim C4, amended: in scenario S4 the first \<^verbatim>\<open>Victim\<close> clears the ref bits of frames 0,
  1 and 2 in its sweep and returns frame 0, the first position it remembered; frame 0 leaves
  the replacer and the hand moves to 1.
\<close>

theorem S4_victim_is_frame_0:
  "map_option Victim S4_replacer =
     Some (Some 0, \<lparr>clock_hand = 1, buffer_size = 3,
       ref_f = [False, False, False], in_f = [False, True, True]\<rparr>)"
  by (simp add: S4_replacer_eq Victim_def Victim_loop.simps)

text \<open>
  Claim C5: \<^verbatim>\<open>Victim\<close> returns a frame whenever \<^verbatim>\<open>Size() > 0\<close>; it returns none exactly
  when no frame is in the replacer; and when every frame in the replacer has its ref bit
  set (the fallback path), the frame returned is the first one in the replacer in sweep
  order from the hand, and it is no longer in the replacer afterwards.
\<close>

theorem Victim_succeeds_iff_unpinned:
  assumes "replacer_wf r"
  shows "(0 < Size r \<longrightarrow> (\<exists>f. fst (Victim r) = Some f)) \<and>
         (fst (Victim r) = None \<longleftrightarrow> (\<forall>k<buffer_size r. \<not> in_f r ! k)) \<and>
         ((\<exists>k<buffer_size r. in_f r ! k) \<and>
          (\<forall>k<buffer_size r. in_f r ! k \<longrightarrow> ref_f r ! k) \<longrightarrow>
          (\<exists>j<buffer_size r.
             fst (Victim r) = Some (int ((clock_hand r + j) mod buffer_size r)) \<and>
             in_f r ! ((clock_hand r + j) mod buffer_size r) \<and>
             (\<forall>j'<j. \<not> in_f r ! ((clock_hand r + j') mod buffer_size r)) \<and>
             \<not> in_f (snd (Victim r)) ! ((clock_hand r + j) mod buffer_size r)))"
proof (intro conjI impI)
  assume "0 < Size r"
  then have "\<exists>k<buffer_size r. in_f r ! k" by (simp add: Size_pos_iff)
  then have "fst (Victim r) \<noteq> None" using Victim_None_iff[OF assms] by blast
  then show "\<exists>f. fst (Victim r) = Some f" by auto
next
  show "fst (Victim r) = None \<longleftrightarrow> (\<forall>k<buffer_size r. \<not> in_f r ! k)"
    by (rule Victim_None_iff[OF assms])
next
  assume "(\<exists>k<buffer_size r. in_f r ! k) \<and>
          (\<forall>k<buffer_size r. in_f r ! k \<longrightarrow> ref_f r ! k)"
  then show "\<exists>j<buffer_size r.
             fst (Victim r) = Some (int ((clock_hand r + j) mod buffer_size r)) \<and>
             in_f r ! ((clock_hand r + j) mod buffer_size r) \<and>
             (\<forall>j'<j. \<not> in_f r ! ((clock_hand r + j') mod buffer_size r)) \<and>
             \<not> in_f (snd (Victim r)) ! ((clock_hand r + j) mod buffer_size r)"
    using Victim_fallback[OF assms] by blast
qed

theorem Victim_succeeds_iff_unpinned_witness:
  "replacer_wf example_replacer \<and> 0 < Size example_replacer \<and>
   (\<exists>k<buffer_size example_replacer. in_f example_replacer ! k) \<and>
   \<not> (\<exists>k<buffer_size example_replacer.
         in_f example_replacer ! k \<and> \<not> ref_f example_replacer ! k) \<and>
   (\<exists>f. fst (Victim example_replacer) = Some f) \<and>
   fst (Victim example_replacer) \<noteq> None \<and>
   (\<exists>j<buffer_size example_replacer.
      fst (Victim example_replacer) =
        Some (int ((clock_hand example_replacer + j) mod buffer_size example_replacer)) \<and>
      in_f example_replacer ! ((clock_hand example_replacer + j) mod buffer_size example_replacer) \<and>
      (\<forall>j'<j. \<not> in_f example_replacer !
          ((clock_hand example_replacer + j') mod buffer_size example_replacer)) \<and>
      \<not> in_f (snd (Victim example_replacer)) !
          ((clock_hand example_replacer + j) mod buffer_size example_replacer))"
proof -
  have wf: "replacer_wf example_replacer"
    by (simp add: replacer_wf_def example_replacer_def)
  have sz: "0 < Size example_replacer"
    by (simp add: example_replacer_def Size_def Size_loop.simps)
  have ex: "\<exists>k<buffer_size example_replacer. in_f example_replacer ! k"
    by (rule exI[of _ 0]) (simp add: example_replacer_def)
  have al: "\<forall>k<buffer_size example_replacer. in_f example_replacer ! k \<longrightarrow> ref_f example_replacer ! k"
    by (simp add: example_replacer_def less_Suc_eq numeral_3_eq_3)
  show ?thesis
    using Victim_succeeds_iff_unpinned[OF wf] wf sz ex al by blast
qed
text \<open>
  Claim C9 says that \<^verbatim>\<open>Pin\<close> and \<^verbatim>\<open>Unpin\<close> ignore every frame id outside
  \<open>[0, capacity)\<close>. The guard of the code is \<open>frame_id >= int32_t(buffer_size)\<close> only:
  a negative frame id passes it and indexes the bit vectors out of range. (For ids at or
  above the capacity both are no-ops, and both are idempotent: \<open>Pin_above\<close>,
  \<open>Unpin_above\<close>, \<open>Pin_idem\<close>, \<open>Unpin_idem\<close>.)
\<close>

theorem Pin_negative_frame:
  "Pin (ClockReplacer_new 3) (-1) = None \<and> Unpin (ClockReplacer_new 3) (-1) = None"
  by (simp add: Pin_def Unpin_def ClockReplacer_new_def int32_of_size_def)


section \<open>Properties of the block page\<close>

text \<open>
  The bit tests of the code read one bit of one byte: slot \<open>i\<close> is bit \<open>i mod 8\<close> of byte
  \<open>i div 8\<close>.
\<close>


lemma IsOccupied_bit:
  "IsOccupied b i \<longleftrightarrow> i div 8 < length (occupied b) \<and> bit (occupied b ! (i div 8)) (i mod 8)"
  by (auto simp: IsOccupied_def Let_def bit_iff_and_push_bit_not_eq_0)

lemma IsReadable_bit:
  "IsReadable b i \<longleftrightarrow> i div 8 < length (readable b) \<and> bit (readable b ! (i div 8)) (i mod 8)"
  by (auto simp: IsReadable_def Let_def bit_iff_and_push_bit_not_eq_0)

lemma slot_eq_iff: "i div 8 = j div 8 \<and> i mod 8 = j mod 8 \<longleftrightarrow> i = (j::nat)"
  by (metis div_mult_mod_eq)

lemma bit_set_slot:
  fixes w :: "8 word"
  shows "n < 8 \<Longrightarrow> bit (w OR 2 ^ m) n \<longleftrightarrow> bit w n \<or> n = m"
  by (auto simp: bit_simps)

lemma bit_clear_slot:
  fixes w :: "8 word"
  shows "n < 8 \<Longrightarrow> bit (w AND NOT (2 ^ m)) n \<longleftrightarrow> bit w n \<and> n \<noteq> m"
  by (auto simp: bit_simps)

lemma Block_Insert_False:
  "Block_Insert b i k v = Some (False, b') \<Longrightarrow> b' = b \<and> IsOccupied b i"
  by (auto simp: Block_Insert_def Let_def split: if_splits)

lemma Block_Insert_True:
  assumes "Block_Insert b i k v = Some (True, b')"
  shows "\<not> IsOccupied b i"
    and "IsOccupied b' j \<longleftrightarrow> IsOccupied b j \<or> j = i"
    and "IsReadable b' j \<longleftrightarrow> IsReadable b j \<or> j = i"
    and "array b' = (array b)[i := (k, v)]"
    and "i < length (array b)"
    and "length (occupied b') = length (occupied b)"
    and "length (readable b') = length (readable b)"
proof -
  let ?idx = "i div 8" and ?bit = "i mod 8"
  from assms have nocc: "\<not> IsOccupied b i"
    and rng: "?idx < length (occupied b)" "?idx < length (readable b)" "i < length (array b)"
    and b': "b' = b\<lparr>occupied := (occupied b)[?idx := (occupied b ! ?idx) OR push_bit ?bit 1],
                  readable := (readable b)[?idx := (readable b ! ?idx) OR push_bit ?bit 1],
                  array := (array b)[i := (k, v)]\<rparr>"
    by (auto simp: Block_Insert_def Let_def split: if_splits)
  show "\<not> IsOccupied b i" by (rule nocc)
  show "array b' = (array b)[i := (k, v)]" "i < length (array b)"
    "length (occupied b') = length (occupied b)" "length (readable b') = length (readable b)"
    using b' rng by simp_all
  have m: "j mod 8 < 8" by simp
  show "IsOccupied b' j \<longleftrightarrow> IsOccupied b j \<or> j = i"
  proof (cases "j div 8 = ?idx")
    case True
    then show ?thesis
      using rng slot_eq_iff[of j i] by (auto simp: IsOccupied_bit b' bit_set_slot[OF m])
  next
    case False
    then show ?thesis by (auto simp: IsOccupied_bit b')
  qed
  show "IsReadable b' j \<longleftrightarrow> IsReadable b j \<or> j = i"
  proof (cases "j div 8 = ?idx")
    case True
    then show ?thesis
      using rng slot_eq_iff[of j i] by (auto simp: IsReadable_bit b' bit_set_slot[OF m])
  next
    case False
    then show ?thesis by (auto simp: IsReadable_bit b')
  qed
qed

lemma Block_Remove_occupied [simp]:
  "IsOccupied (Block_Remove b i) j = IsOccupied b j"
  by (simp add: Block_Remove_def Let_def IsOccupied_bit)

lemma Block_Remove_array [simp]: "array (Block_Remove b i) = array b"
  by (simp add: Block_Remove_def Let_def)

lemma Block_Remove_lengths [simp]:
  "length (occupied (Block_Remove b i)) = length (occupied b)"
  "length (readable (Block_Remove b i)) = length (readable b)"
  by (simp_all add: Block_Remove_def Let_def)

lemma Block_Remove_readable_imp:
  "IsReadable (Block_Remove b i) j \<Longrightarrow> IsReadable b j"
proof (cases "j div 8 = i div 8")
  case True
  have m: "j mod 8 < 8" by simp
  assume "IsReadable (Block_Remove b i) j"
  then show ?thesis using True
    by (auto simp: Block_Remove_def Let_def IsReadable_bit bit_clear_slot[OF m] split: if_splits)
next
  case False
  assume "IsReadable (Block_Remove b i) j"
  then show ?thesis using False
    by (auto simp: Block_Remove_def Let_def IsReadable_bit split: if_splits)
qed

lemma Block_Remove_readable:
  assumes "length (readable b) = length (occupied b)"
  shows "IsReadable (Block_Remove b i) j \<longleftrightarrow> IsReadable b j \<and> j \<noteq> i"
proof (cases "j div 8 = i div 8")
  case True
  have m: "j mod 8 < 8" by simp
  show ?thesis using True assms slot_eq_iff[of j i]
    by (auto simp: Block_Remove_def Let_def IsReadable_bit bit_clear_slot[OF m])
next
  case False
  then show ?thesis 
    by (auto simp: Block_Remove_def Let_def IsReadable_bit)
qed

lemma Block_Insert_readable_occupied:
  "readable_occupied b \<Longrightarrow> Block_Insert b i k v = Some (ok, b') \<Longrightarrow> readable_occupied b'"
  by (cases ok) (auto simp: readable_occupied_def Block_Insert_True dest: Block_Insert_False)

lemma Block_Insert_occupied_mono:
  "Block_Insert b i k v = Some (ok, b') \<Longrightarrow> IsOccupied b j \<Longrightarrow> IsOccupied b' j"
  by (cases ok) (auto simp: Block_Insert_True dest: Block_Insert_False)

lemma Block_Remove_readable_occupied:
  "readable_occupied b \<Longrightarrow> readable_occupied (Block_Remove b i)"
  by (auto simp: readable_occupied_def dest: Block_Remove_readable_imp)

lemma zero_block_not_readable: "\<not> IsReadable (zero_block B) i"
proof -
  have "replicate ((B - 1) div 8 + 1) (0 :: 8 word) ! (i div 8) = 0"
    if "i div 8 < (B - 1) div 8 + 1"
    using that by (rule nth_replicate)
  then show ?thesis
    by (auto simp: IsReadable_def Let_def zero_block_def simp del: replicate.simps)
qed

lemma zero_block_not_occupied: "\<not> IsOccupied (zero_block B) i"
proof -
  have "replicate ((B - 1) div 8 + 1) (0 :: 8 word) ! (i div 8) = 0"
    if "i div 8 < (B - 1) div 8 + 1"
    using that by (rule nth_replicate)
  then show ?thesis
    by (auto simp: IsOccupied_def Let_def zero_block_def simp del: replicate.simps)
qed

lemma zero_block_readable_occupied: "readable_occupied (zero_block B)"
  by (simp add: readable_occupied_def zero_block_not_readable)

lemma zero_block_wf: "block_wf B (zero_block B)"
  by (simp add: block_wf_def zero_block_def)


lemma example_block_readable_occupied: "readable_occupied example_block"
  by (auto simp: readable_occupied_def IsReadable_bit IsOccupied_bit example_block_def)

text \<open>
  What holds for calls within the page: from a page where every readable slot is occupied
  (a zeroed page is one), any sequence of \<^verbatim>\<open>Insert\<close> and \<^verbatim>\<open>Remove\<close> keeps that
  invariant, and a slot that is occupied stays occupied; when every \<^verbatim>\<open>Insert\<close> of the
  sequence is at an index below \<^verbatim>\<open>BLOCK_ARRAY_SIZE\<close> the sequence is defined.
\<close>

lemma block_ops_readable_occupied:
  "readable_occupied b \<Longrightarrow> block_ops b ops = Some b' \<Longrightarrow>
     readable_occupied b' \<and> (\<forall>i. IsOccupied b i \<longrightarrow> IsOccupied b' i)"
proof (induction b ops rule: block_ops.induct)
  case (1 b)
  then show ?case by simp
next
  case (2 b i k v ops)
  from "2.prems"(2) obtain ok b1 where ins: "Block_Insert b i k v = Some (ok, b1)"
    and rest: "block_ops b1 ops = Some b'"
    by (auto split: option.splits)
  have "readable_occupied b1"
    using Block_Insert_readable_occupied[OF "2.prems"(1) ins] .
  then have "readable_occupied b' \<and> (\<forall>i. IsOccupied b1 i \<longrightarrow> IsOccupied b' i)"
    using "2.IH" ins rest by simp
  then show ?case using Block_Insert_occupied_mono[OF ins] by blast
next
  case (3 b i ops)
  have "readable_occupied (Block_Remove b i)"
    using "3.prems"(1) by (rule Block_Remove_readable_occupied)
  then show ?case using "3.IH" "3.prems"(2) by simp
qed

lemma Block_Insert_wf:
  "block_wf B b \<Longrightarrow> i < B \<Longrightarrow>
     Block_Insert b i k v =
       (if IsOccupied b i then Some (False, b)
        else Some (True,
                b\<lparr>occupied := (occupied b)[i div 8 := (occupied b ! (i div 8)) OR push_bit (i mod 8) 1],
                  readable := (readable b)[i div 8 := (readable b ! (i div 8)) OR push_bit (i mod 8) 1],
                  array := (array b)[i := (k, v)]\<rparr>))"
proof -
  assume wf: "block_wf B b" and i: "i < B"
  have "i div 8 \<le> (B - 1) div 8" using i by (intro div_le_mono) simp
  then have "i div 8 < (B - 1) div 8 + 1" by simp
  then show ?thesis using wf i by (simp add: Block_Insert_def block_wf_def Let_def)
qed

lemma Block_Insert_defined:
  "block_wf B b \<Longrightarrow> i < B \<Longrightarrow> \<exists>ok b'. Block_Insert b i k v = Some (ok, b')"
  by (auto simp: Block_Insert_wf)

lemma Block_Insert_keeps_wf:
  "block_wf B b \<Longrightarrow> Block_Insert b i k v = Some (ok, b') \<Longrightarrow> block_wf B b'"
  by (auto simp: Block_Insert_def block_wf_def Let_def split: if_splits)

lemma Block_Remove_wf: "block_wf B b \<Longrightarrow> block_wf B (Block_Remove b i)"
  by (simp add: block_wf_def)

lemma block_ops_in_range_defined:
  "block_wf B b \<Longrightarrow> \<forall>op \<in> set ops. insert_below B op \<Longrightarrow>
     \<exists>b'. block_ops b ops = Some b' \<and> block_wf B b'"
proof (induction b ops rule: block_ops.induct)
  case (1 b)
  then show ?case by simp
next
  case (2 b i k v ops)
  then have i: "i < B" by simp
  obtain ok b1 where ins: "Block_Insert b i k v = Some (ok, b1)"
    using Block_Insert_defined[OF "2.prems"(1) i] by blast
  have "block_wf B b1" using Block_Insert_keeps_wf[OF "2.prems"(1) ins] .
  then show ?case using "2.IH"[OF ins refl] "2.prems"(2) ins by simp
next
  case (3 b i ops)
  then show ?case using Block_Remove_wf[of B b i] by simp
qed

text \<open>
  Claim C7 says that \<open>readable[i] \<Longrightarrow> occupied[i]\<close> holds after any sequence of the block
  operations \<^verbatim>\<open>Insert\<close> and \<^verbatim>\<open>Remove\<close>. \<^verbatim>\<open>Remove\<close>, \<^verbatim>\<open>IsOccupied\<close> and
  \<^verbatim>\<open>IsReadable\<close> return early for an index beyond the bitmaps; \<^verbatim>\<open>Insert\<close> has no such
  guard. On a page of four slots (one byte per bitmap) \<^verbatim>\<open>Insert(8, k, v)\<close> finds slot 8
  not occupied, because \<^verbatim>\<open>IsOccupied\<close> answers false out of range, and goes on to write
  \<^verbatim>\<open>occupied_[1]\<close> and \<^verbatim>\<open>readable_[1]\<close>, outside both arrays: the call is undefined, and
  nothing is left of the invariant.
\<close>

theorem Block_Insert_beyond_bitmap:
  "\<not> IsOccupied (zero_block 4 :: (nat, nat) HashTableBlockPage) 8 \<and>
   Block_Insert (zero_block 4 :: (nat, nat) HashTableBlockPage) 8 5 7 = None \<and>
   block_ops (zero_block 4 :: (nat, nat) HashTableBlockPage) [BInsert 8 5 7] = None"
  by code_simp

section \<open>Properties of the buffer pool manager\<close>

subsection \<open>What Victim returns\<close>


lemma Victim_loop_found_in:
  "Victim_loop r i c = (True, fid, c', r') \<Longrightarrow>
     \<exists>p. fid = Some (int p) \<and> p < buffer_size r \<and> in_f r ! p \<and>
         in_f r' = (in_f r)[p := False]"
proof (induction r i c rule: Victim_loop.induct)
  case (1 r i candi)
  show ?case
    using "1.prems" "1.IH"
    by (subst (asm) Victim_loop.simps) (auto simp: Let_def split: if_splits)
qed

lemma Victim_Some:
  assumes "Victim r = (Some f, r')"
  shows "0 \<le> f \<and> nat f < buffer_size r \<and> in_f r ! nat f \<and>
         in_f r' = (in_f r)[nat f := False] \<and> buffer_size r' = buffer_size r"
proof -
  obtain res fid c' r1 where L: "Victim_loop r 0 (-1) = (res, fid, c', r1)"
    by (metis prod_cases4)
  have sh: "buffer_size r1 = buffer_size r" using Victim_loop_shape[OF L] by simp
  show ?thesis
  proof (cases res)
    case True
    then obtain p where "fid = Some (int p)" "p < buffer_size r" "in_f r ! p"
      "in_f r1 = (in_f r)[p := False]"
      using Victim_loop_found_in[of r 0 "-1" fid c' r1] L by auto
    then show ?thesis using assms L True sh by (auto simp: Victim_def)
  next
    case False
    then have nf: "Victim_loop r 0 (-1) = (False, fid, c', r1)" using L by simp
    have in1: "in_f r1 = in_f r" using Victim_loop_shape[OF nf] by simp
    from assms nf have c': "c' \<noteq> -1" "f = c'"
      and r': "r' = r1\<lparr>clock_hand := nat (c' + 1) mod buffer_size r1,
                      in_f := (in_f r1)[nat c' := False]\<rparr>"
      by (auto simp: Victim_def split: if_splits)
    with Victim_loop_not_found[OF nf]
    obtain j where "j < buffer_size r" "c' = int ((clock_hand r + j) mod buffer_size r)"
      "in_f r ! ((clock_hand r + j) mod buffer_size r)"
      by auto
    then show ?thesis using c' r' in1 sh by auto
  qed
qed

lemma Victim_None:
  assumes "Victim r = (None, r')"
  shows "in_f r' = in_f r \<and> buffer_size r' = buffer_size r"
proof -
  obtain res fid c' r1 where L: "Victim_loop r 0 (-1) = (res, fid, c', r1)"
    by (metis prod_cases4)
  show ?thesis
  proof (cases res)
    case True
    then obtain p where "fid = Some (int p)"
      using Victim_loop_found_in[of r 0 "-1" fid c' r1] L by auto
    then show ?thesis using assms L True by (auto simp: Victim_def)
  next
    case False
    then have nf: "Victim_loop r 0 (-1) = (False, fid, c', r1)" using L by simp
    then show ?thesis using assms Victim_loop_shape[OF nf]
      by (auto simp: Victim_def split: if_splits)
  qed
qed

lemma Victim_wf': "replacer_wf r \<Longrightarrow> Victim r = (res, r') \<Longrightarrow> replacer_wf r'"
  using Victim_wf[of r] by simp

subsection \<open>FetchPage\<close>


lemma Page_fetch_fields:
  "pg\<lparr>pin_count := a, page_id := b, is_dirty := c, data := d\<rparr> =
     \<lparr>data = d, page_id = b, pin_count = a, is_dirty = c\<rparr>"
  by (cases pg) simp

lemma Page_new_fields:
  "pg\<lparr>data := d, page_id := b, pin_count := a, is_dirty := c\<rparr> =
     \<lparr>data = d, page_id = b, pin_count = a, is_dirty = c\<rparr>"
  by (cases pg) simp

lemma page_at_Some:
  "frames_ok s \<Longrightarrow> 0 \<le> f \<Longrightarrow> nat f < pool_size s \<Longrightarrow> page_at s f = Some (pages s ! nat f)"
  by (simp add: page_at_def frames_ok_def)

lemma Pin_frame:
  "frames_ok s \<Longrightarrow> 0 \<le> f \<Longrightarrow> nat f < pool_size s \<Longrightarrow>
   Pin (replacer s) f = Some ((replacer s)\<lparr>in_f := (in_f (replacer s))[nat f := False]\<rparr>)"
  by (simp add: frames_ok_def Pin_in_range)

lemma Unpin_frame:
  "frames_ok s \<Longrightarrow> 0 \<le> f \<Longrightarrow> nat f < pool_size s \<Longrightarrow>
   Unpin (replacer s) f =
     Some ((replacer s)\<lparr>in_f := (in_f (replacer s))[nat f := True],
                        ref_f := (ref_f (replacer s))[nat f := True]\<rparr>)"
  by (simp add: frames_ok_def Unpin_in_range)

lemma bpm_invD:
  assumes "bpm_inv s"
  shows "frames_ok s" "table_ok s" "free_ok s" "replacer_ok s" "evictable_ok s" "pins_ok s" "ids_ok s"
  using assms by (simp_all add: bpm_inv_def)

lemma table_okD:
  "table_ok s \<Longrightarrow> page_table s p = Some f \<Longrightarrow>
     0 \<le> f \<and> nat f < pool_size s \<and> page_id (pages s ! nat f) = p"
  by (simp add: table_ok_def)

lemma table_ok_inj:
  "table_ok s \<Longrightarrow> page_table s p = Some f \<Longrightarrow> page_table s q = Some f \<Longrightarrow> p = q"
  by (metis table_okD)

lemma FetchPage_hit:
  assumes inv: "bpm_inv s" and hit: "page_table s pid = Some f"
    and pc: "pin_count (pages s ! nat f) < 2147483647"
  shows "FetchPageImpl s pid =
     Some (Some f,
       s\<lparr>replacer := (replacer s)\<lparr>in_f := (in_f (replacer s))[nat f := False]\<rparr>,
         pages := (pages s)[nat f := (pages s ! nat f)\<lparr>pin_count := pin_count (pages s ! nat f) + 1\<rparr>]\<rparr>)"
proof -
  note I = bpm_invD[OF inv]
  have f: "0 \<le> f" "nat f < pool_size s" using table_okD[OF I(2) hit] by simp_all
  show ?thesis
    using hit pc
    by (simp add: FetchPageImpl_def Pin_frame[OF I(1) f] page_at_Some[OF I(1) f] incr_pin_def
        set_page_def)
qed

lemma hit_state_inv:
  assumes inv: "bpm_inv s" and hit: "page_table s pid = Some f"
  shows "bpm_inv (s\<lparr>replacer := (replacer s)\<lparr>in_f := (in_f (replacer s))[nat f := False]\<rparr>,
         pages := (pages s)[nat f := (pages s ! nat f)\<lparr>pin_count := pin_count (pages s ! nat f) + 1\<rparr>]\<rparr>)"
    (is "bpm_inv ?s'")
proof -
  note I = bpm_invD[OF inv]
  have f: "0 \<le> f" "nat f < pool_size s" using table_okD[OF I(2) hit] by simp_all
  have len: "length (pages s) = pool_size s" "length (in_f (replacer s)) = pool_size s"
    using I(1) by (simp_all add: frames_ok_def replacer_wf_def)
  have 1: "frames_ok ?s'" using I(1) by (auto simp: frames_ok_def replacer_wf_def)
  have 2: "table_ok ?s'" using I(2) len f by (auto simp: table_ok_def nth_list_update)
  have nfree: "f \<notin> set (free_list s)" using I(3) hit by (auto simp: free_ok_def)
  have 3: "free_ok ?s'" using I(3) len nfree f
    by (auto simp: free_ok_def nth_list_update eq_nat_nat_iff)
  have 4: "replacer_ok ?s'" using I(4) len f
    by (auto simp: replacer_ok_def nth_list_update eq_nat_nat_iff)
  have 6: "pins_ok ?s'" using I(6) len f by (auto simp: pins_ok_def nth_list_update)
  have 5: "evictable_ok ?s'" using I(5) I(6) I(2) len f
    by (auto simp: evictable_ok_def nth_list_update pins_ok_def table_ok_def)
  have 7: "ids_ok ?s'" using I(7) by (simp add: ids_ok_def)
  show ?thesis using 1 2 3 4 5 6 7 by (simp add: bpm_inv_def)
qed


lemma free_okD:
  "free_ok s \<Longrightarrow> f \<in> set (free_list s) \<Longrightarrow>
     0 \<le> f \<and> nat f < pool_size s \<and> (\<forall>p. page_table s p \<noteq> Some f) \<and>
     pin_count (pages s ! nat f) = 0"
  by (simp add: free_ok_def)

lemma FetchPage_free:
  assumes inv: "bpm_inv s" and miss: "page_table s pid = None"
    and fl: "free_list s = t # rest"
  shows "FetchPageImpl s pid =
     Some (Some t,
       s\<lparr>free_list := rest,
         replacer := (replacer s)\<lparr>in_f := (in_f (replacer s))[nat t := False]\<rparr>,
         page_table := (page_table s)(pid \<mapsto> t),
         pages := (pages s)[nat t :=
           \<lparr>data = ReadPage (disk_manager s) pid, page_id = pid, pin_count = 1,
            is_dirty = False\<rparr>]\<rparr>)"
proof -
  note I = bpm_invD[OF inv]
  have t: "0 \<le> t" "nat t < pool_size s" and pc: "pin_count (pages s ! nat t) = 0"
    using free_okD[OF I(3), of t] fl by simp_all
  show ?thesis
    using miss fl pc
    by (simp add: FetchPageImpl_def Pin_frame[OF I(1) t] page_at_Some[OF I(1) t] incr_pin_def
        set_page_def Page_fetch_fields)
qed

lemma install_free_inv:
  assumes inv: "bpm_inv s" and miss: "page_table s pid = None"
    and fl: "free_list s = t # rest"
    and fresh: "pid < next_page_id dm" and mono: "next_page_id (disk_manager s) \<le> next_page_id dm"
  shows "bpm_inv (s\<lparr>free_list := rest,
         disk_manager := dm,
         replacer := (replacer s)\<lparr>in_f := (in_f (replacer s))[nat t := False]\<rparr>,
         page_table := (page_table s)(pid \<mapsto> t),
         pages := (pages s)[nat t :=
           \<lparr>data = bytes, page_id = pid, pin_count = 1, is_dirty = False\<rparr>]\<rparr>)"
    (is "bpm_inv ?s'")
proof -
  note I = bpm_invD[OF inv]
  have t: "0 \<le> t" "nat t < pool_size s" and pc: "pin_count (pages s ! nat t) = 0"
    and nres: "\<forall>p. page_table s p \<noteq> Some t"
    using free_okD[OF I(3), of t] fl by simp_all
  have len: "length (pages s) = pool_size s" "length (in_f (replacer s)) = pool_size s"
    using I(1) by (simp_all add: frames_ok_def replacer_wf_def)
  have trest: "t \<notin> set rest" "distinct rest" using I(3) fl by (auto simp: free_ok_def)
  have 1: "frames_ok ?s'" using I(1) by (auto simp: frames_ok_def replacer_wf_def)
  have 2: "table_ok ?s'" using I(2) len t nres
    by (auto simp: table_ok_def nth_list_update eq_nat_nat_iff)
  have 3: "free_ok ?s'" using I(3) len t trest fl
    by (auto simp: free_ok_def nth_list_update eq_nat_nat_iff)
  have 4: "replacer_ok ?s'" using I(4) len t fl miss
    by (auto simp: replacer_ok_def nth_list_update eq_nat_nat_iff)
  have 6: "pins_ok ?s'" using I(6) len t by (auto simp: pins_ok_def nth_list_update)
  have 5: "evictable_ok ?s'" using I(5) I(2) len t nres
    by (auto simp: evictable_ok_def nth_list_update table_ok_def eq_nat_nat_iff)
  have 7: "ids_ok ?s'" using I(7) fresh mono by (auto simp: ids_ok_def)
  show ?thesis using 1 2 3 4 5 6 7 by (simp add: bpm_inv_def)
qed


lemma Pin_after_Victim:
  assumes wf: "replacer_wf r0" and vic: "Victim r0 = (Some t, r)"
  shows "Pin r t = Some r"
proof -
  from Victim_Some[OF vic] have t: "0 \<le> t" "nat t < buffer_size r0"
    and inr: "in_f r = (in_f r0)[nat t := False]" and bs: "buffer_size r = buffer_size r0"
    by simp_all
  have wfr: "replacer_wf r" using Victim_wf'[OF wf vic] .
  have "Pin r t = Some (r\<lparr>in_f := (in_f r)[nat t := False]\<rparr>)"
    using Pin_in_range[OF wfr] t bs by simp
  moreover have "(in_f r)[nat t := False] = in_f r" by (simp add: inr)
  ultimately show ?thesis by simp
qed

lemma victim_facts:
  assumes inv: "bpm_inv s" and fl: "free_list s = []"
    and vic: "Victim (replacer s) = (Some t, r)"
  shows "0 \<le> t" "nat t < pool_size s" "in_f (replacer s) ! nat t"
    "in_f r = (in_f (replacer s))[nat t := False]" "buffer_size r = pool_size s"
    "replacer_wf r" "pin_count (pages s ! nat t) = 0"
    "page_table s (page_id (pages s ! nat t)) = Some t"
proof -
  note I = bpm_invD[OF inv]
  have wf: "replacer_wf (replacer s)" and bs: "buffer_size (replacer s) = pool_size s"
    using I(1) by (simp_all add: frames_ok_def)
  from Victim_Some[OF vic] bs
  show t: "0 \<le> t" "nat t < pool_size s" and inn: "in_f (replacer s) ! nat t"
    and "in_f r = (in_f (replacer s))[nat t := False]" and "buffer_size r = pool_size s"
    by simp_all
  show "replacer_wf r" using Victim_wf'[OF wf vic] .
  from I(4) t inn fl
  show "pin_count (pages s ! nat t) = 0" "page_table s (page_id (pages s ! nat t)) = Some t"
    by (auto simp: replacer_ok_def)
qed

lemma FetchPage_victim:
  assumes inv: "bpm_inv s" and miss: "page_table s pid = None"
    and fl: "free_list s = []"
    and vic: "Victim (replacer s) = (Some t, r)"
  shows "FetchPageImpl s pid =
     Some (Some t,
       s\<lparr>replacer := r,
         disk_manager :=
           (if is_dirty (pages s ! nat t)
            then WritePage (disk_manager s) (page_id (pages s ! nat t)) (data (pages s ! nat t))
            else disk_manager s),
         page_table := ((page_table s)(page_id (pages s ! nat t) := None))(pid \<mapsto> t),
         pages := (pages s)[nat t :=
           \<lparr>data = ReadPage
              (if is_dirty (pages s ! nat t)
               then WritePage (disk_manager s) (page_id (pages s ! nat t)) (data (pages s ! nat t))
               else disk_manager s) pid,
            page_id = pid, pin_count = 1, is_dirty = False\<rparr>]\<rparr>)"
proof -
  note I = bpm_invD[OF inv]
  note V = victim_facts[OF inv fl vic]
  have wf0: "replacer_wf (replacer s)" using I(1) by (simp add: frames_ok_def)
  have len: "length (pages s) = pool_size s" using I(1) by (simp add: frames_ok_def)
  have pa: "\<And>u. pages u = pages s \<Longrightarrow> page_at u t = Some (pages s ! nat t)"
    using V(1,2) len by (simp add: page_at_def)
  have pin: "Pin r t = Some r" using Pin_after_Victim[OF wf0 vic] .
  show ?thesis
  proof (cases "is_dirty (pages s ! nat t)")
    case False
    then show ?thesis
      using miss fl vic V(7) pin
      by (simp add: FetchPageImpl_def pa incr_pin_def set_page_def Let_def Page_fetch_fields)
  next
    case True
    have flush: "FlushPageImpl (s\<lparr>replacer := r\<rparr>) (page_id (pages s ! nat t)) =
      Some (True, set_page (s\<lparr>replacer := r,
          disk_manager := WritePage (disk_manager s) (page_id (pages s ! nat t)) (data (pages s ! nat t))\<rparr>)
          t ((pages s ! nat t)\<lparr>is_dirty := False\<rparr>))"
      using True V(8) by (simp add: FlushPageImpl_def pa)
    show ?thesis
      using miss fl vic V(7) pin True V(1,2) len
      by (simp add: FetchPageImpl_def pa flush incr_pin_def set_page_def page_at_def Let_def Page_fetch_fields)
  qed
qed



lemma install_victim_inv:
  assumes inv: "bpm_inv s" and miss: "page_table s pid = None"
    and fl: "free_list s = []"
    and vic: "Victim (replacer s) = (Some t, r)"
    and fresh: "pid < next_page_id dm" and mono: "next_page_id (disk_manager s) \<le> next_page_id dm"
  shows "bpm_inv (s\<lparr>replacer := r,
         disk_manager := dm,
         page_table := ((page_table s)(page_id (pages s ! nat t) := None))(pid \<mapsto> t),
         pages := (pages s)[nat t :=
           \<lparr>data = bytes, page_id = pid, pin_count = 1, is_dirty = False\<rparr>]\<rparr>)"
    (is "bpm_inv ?s'")
proof -
  note I = bpm_invD[OF inv]
  note V = victim_facts[OF inv fl vic]
  have len: "length (pages s) = pool_size s" "length (in_f (replacer s)) = pool_size s"
    using I(1) by (simp_all add: frames_ok_def replacer_wf_def)
  have uniq: "\<And>p. page_table s p = Some t \<Longrightarrow> p = page_id (pages s ! nat t)"
    using table_okD[OF I(2)] by blast
  have 1: "frames_ok ?s'" using I(1) V(5,6) by (auto simp: frames_ok_def)
  have 2: "table_ok ?s'" using I(2) len V(1,2) uniq
    by (auto simp: table_ok_def nth_list_update eq_nat_nat_iff)
  have 3: "free_ok ?s'" using fl by (simp add: free_ok_def)
  have 4: "replacer_ok ?s'"
    unfolding replacer_ok_def
  proof (intro allI impI)
    fix i assume i: "i < pool_size ?s'" and inn: "in_f (replacer ?s') ! i"
    have i0: "i < pool_size s" using i by simp
    have inr: "in_f (replacer ?s') = (in_f (replacer s))[nat t := False]"
      using V(4) by simp
    have it: "i \<noteq> nat t"
    proof
      assume "i = nat t"
      then have "\<not> in_f (replacer ?s') ! i"
        unfolding inr using len(2) V(2) by simp
      then show False using inn by simp
    qed
    have inn0: "in_f (replacer s) ! i" using inn it unfolding inr by simp
    have pc: "pin_count (pages s ! i) = 0"
      and res: "page_table s (page_id (pages s ! i)) = Some (int i)"
      using I(4) i0 inn0 fl by (simp_all add: replacer_ok_def)
    have ne: "page_id (pages s ! i) \<noteq> page_id (pages s ! nat t)"
    proof
      assume e: "page_id (pages s ! i) = page_id (pages s ! nat t)"
      have "Some (int i) = page_table s (page_id (pages s ! i))" using res by (rule sym)
      also have "\<dots> = page_table s (page_id (pages s ! nat t))" by (simp only: e)
      also have "\<dots> = Some t" by (rule V(8))
      finally have "int i = t" by (simp only: option.inject)
      then have "nat t = i" by (simp only: nat_int[symmetric])
      then show False using it by (simp only:)
    qed
    have ne2: "page_id (pages s ! i) \<noteq> pid" using res miss by auto
    have pgi: "pages ?s' ! i = pages s ! i" using it by simp
    have "pin_count (pages ?s' ! i) = 0" unfolding pgi by (rule pc)
    moreover have "page_table ?s' (page_id (pages ?s' ! i)) = Some (int i)"
      unfolding pgi using ne ne2 res by simp
    ultimately show "pin_count (pages ?s' ! i) = 0 \<and>
        (int i \<in> set (free_list ?s') \<or> page_table ?s' (page_id (pages ?s' ! i)) = Some (int i))"
      by blast
  qed
  have 6: "pins_ok ?s'" using I(6) len V(2) by (auto simp: pins_ok_def nth_list_update)
  have 5: "evictable_ok ?s'"
    unfolding evictable_ok_def
  proof (intro allI impI)
    fix p f assume pf: "page_table ?s' p = Some f" and z: "pin_count (pages ?s' ! nat f) = 0"
    show "in_f (replacer ?s') ! nat f"
    proof (cases "p = pid")
      case True
      then have "f = t" using pf by simp
      then show ?thesis using z len V(2) by simp
    next
      case False
      then have pf0: "page_table s p = Some f" and pe: "p \<noteq> page_id (pages s ! nat t)"
        using pf by (auto split: if_splits)
      have f: "0 \<le> f" "nat f < pool_size s" "page_id (pages s ! nat f) = p"
        using table_okD[OF I(2) pf0] by simp_all
      have ft: "nat f \<noteq> nat t" using f(3) pe by auto
      then have "pin_count (pages s ! nat f) = 0" using z by simp
      then have "in_f (replacer s) ! nat f" using I(5) pf0 by (auto simp: evictable_ok_def)
      then show ?thesis using V(4) ft by simp
    qed
  qed
  have 7: "ids_ok ?s'" using I(7) fresh mono by (auto simp: ids_ok_def split: if_splits)
  show ?thesis using 1 2 3 4 5 6 7 by (simp add: bpm_inv_def)
qed


lemma FetchPage_none:
  assumes inv: "bpm_inv s" and miss: "page_table s pid = None"
    and fl: "free_list s = []"
    and vic: "Victim (replacer s) = (None, r)"
  shows "FetchPageImpl s pid = Some (None, s\<lparr>replacer := r\<rparr>)"
  using miss fl vic by (simp add: FetchPageImpl_def)

lemma victim_none_inv:
  assumes inv: "bpm_inv s" and vic: "Victim (replacer s) = (None, r)"
  shows "bpm_inv (s\<lparr>replacer := r\<rparr>)"
proof -
  note I = bpm_invD[OF inv]
  have wf: "replacer_wf (replacer s)" using I(1) by (simp add: frames_ok_def)
  have r: "in_f r = in_f (replacer s)" "buffer_size r = buffer_size (replacer s)"
    using Victim_None[OF vic] by simp_all
  have wfr: "replacer_wf r" using Victim_wf'[OF wf vic] .
  show ?thesis
    using I r wfr
    by (simp add: bpm_inv_def frames_ok_def table_ok_def free_ok_def replacer_ok_def
        evictable_ok_def pins_ok_def ids_ok_def)
qed

lemma WritePage_next [simp]: "next_page_id (WritePage d p x) = next_page_id d"
  by (simp add: WritePage_def)

lemma FetchPage_inv:
  assumes inv: "bpm_inv s" and alloc: "pid < next_page_id (disk_manager s)"
    and fetch: "FetchPageImpl s pid = Some (res, s')"
  shows "bpm_inv s'"
proof (cases "page_table s pid")
  case (Some f)
  show ?thesis
  proof (cases "pin_count (pages s ! nat f) < 2147483647")
    case True
    from FetchPage_hit[OF inv Some True] fetch hit_state_inv[OF inv Some]
    show ?thesis by simp
  next
    case False
    note I = bpm_invD[OF inv]
    have f: "0 \<le> f" "nat f < pool_size s" using table_okD[OF I(2) Some] by simp_all
    have "FetchPageImpl s pid = None"
      using Some False
      by (simp add: FetchPageImpl_def Pin_frame[OF I(1) f] page_at_Some[OF I(1) f] incr_pin_def)
    with fetch show ?thesis by simp
  qed
next
  case None
  show ?thesis
  proof (cases "free_list s")
    case (Cons t rest)
    from FetchPage_free[OF inv None Cons] fetch
      install_free_inv[OF inv None Cons, of "disk_manager s"] alloc
    show ?thesis by auto
  next
    case Nil
    obtain v r where vic: "Victim (replacer s) = (v, r)" by (cases "Victim (replacer s)")
    show ?thesis
    proof (cases v)
      case None': None
      from FetchPage_none[OF inv None Nil] vic None' fetch victim_none_inv[OF inv]
      show ?thesis by auto
    next
      case (Some t)
      let ?dm = "if is_dirty (pages s ! nat t)
            then WritePage (disk_manager s) (page_id (pages s ! nat t)) (data (pages s ! nat t))
            else disk_manager s"
      have vic': "Victim (replacer s) = (Some t, r)" using vic Some by simp
      have nx: "next_page_id ?dm = next_page_id (disk_manager s)" by simp
      from FetchPage_victim[OF inv None Nil vic'] fetch
      have s': "s' = s\<lparr>replacer := r, disk_manager := ?dm,
         page_table := ((page_table s)(page_id (pages s ! nat t) := None))(pid \<mapsto> t),
         pages := (pages s)[nat t :=
           \<lparr>data = ReadPage ?dm pid, page_id = pid, pin_count = 1, is_dirty = False\<rparr>]\<rparr>"
        by simp
      show ?thesis
        unfolding s'
        by (rule install_victim_inv[OF inv None Nil vic']) (simp_all only: nx alloc order_refl)
    qed
  qed
qed

lemma FetchPage_defined:
  assumes inv: "bpm_inv s"
    and pc: "\<And>f. page_table s pid = Some f \<Longrightarrow> pin_count (pages s ! nat f) < 2147483647"
  shows "\<exists>res s'. FetchPageImpl s pid = Some (res, s')"
proof (cases "page_table s pid")
  case (Some f)
  from FetchPage_hit[OF inv Some pc[OF Some]] show ?thesis by blast
next
  case None
  show ?thesis
  proof (cases "free_list s")
    case (Cons t rest)
    from FetchPage_free[OF inv None Cons] show ?thesis by blast
  next
    case Nil
    obtain v r where vic: "Victim (replacer s) = (v, r)" by (cases "Victim (replacer s)")
    show ?thesis
    proof (cases v)
      case None': None
      from FetchPage_none[OF inv None Nil] vic None' show ?thesis by blast
    next
      case (Some t)
      then have vic': "Victim (replacer s) = (Some t, r)" using vic by simp
      from FetchPage_victim[OF inv None Nil vic'] show ?thesis by blast
    qed
  qed
qed

lemma FetchPage_resident:
  assumes inv: "bpm_inv s" and fetch: "FetchPageImpl s pid = Some (Some f, s')"
  shows "page_table s' pid = Some f \<and> 0 < pin_count (pages s' ! nat f) \<and>
         0 \<le> f \<and> nat f < pool_size s' \<and> pool_size s' = pool_size s"
proof -
  note I = bpm_invD[OF inv]
  have len: "length (pages s) = pool_size s" using I(1) by (simp add: frames_ok_def)
  show ?thesis
  proof (cases "page_table s pid")
    case (Some g)
    have g: "0 \<le> g" "nat g < pool_size s" using table_okD[OF I(2) Some] by simp_all
    have pz: "0 \<le> pin_count (pages s ! nat g)" using I(6) g by (simp add: pins_ok_def)
    show ?thesis
    proof (cases "pin_count (pages s ! nat g) < 2147483647")
      case True
      from FetchPage_hit[OF inv Some True] fetch Some g len pz
      show ?thesis by auto
    next
      case False
      have "FetchPageImpl s pid = None"
        using Some False
        by (simp add: FetchPageImpl_def Pin_frame[OF I(1) g] page_at_Some[OF I(1) g] incr_pin_def)
      with fetch show ?thesis by simp
    qed
  next
    case None
    show ?thesis
    proof (cases "free_list s")
      case (Cons t rest)
      have t: "0 \<le> t" "nat t < pool_size s" using free_okD[OF I(3), of t] Cons by simp_all
      from FetchPage_free[OF inv None Cons] fetch t len
      show ?thesis by auto
    next
      case Nil
      obtain v r where vic: "Victim (replacer s) = (v, r)" by (cases "Victim (replacer s)")
      show ?thesis
      proof (cases v)
        case None': None
        from FetchPage_none[OF inv None Nil] vic None' fetch show ?thesis by auto
      next
        case (Some t)
        then have vic': "Victim (replacer s) = (Some t, r)" using vic by simp
        note V = victim_facts[OF inv Nil vic']
        from FetchPage_victim[OF inv None Nil vic'] fetch V(1,2) len
        show ?thesis by auto
      qed
    qed
  qed
qed

subsection \<open>UnpinPage\<close>


lemma UnpinPage_miss:
  "page_table s pid = None \<Longrightarrow> UnpinPageImpl s pid d = Some (True, s)"
  by (simp add: UnpinPageImpl_def)

lemma UnpinPage_hit:
  assumes inv: "bpm_inv s" and hit: "page_table s pid = Some f"
  shows "UnpinPageImpl s pid d =
     (if pin_count (pages s ! nat f) \<le> 0 then Some (False, s)
      else if pin_count (pages s ! nat f) = 1 then
        Some (True,
          s\<lparr>pages := (pages s)[nat f := (pages s ! nat f)
                 \<lparr>pin_count := 0, is_dirty := is_dirty (pages s ! nat f) \<or> d\<rparr>],
            replacer := (replacer s)\<lparr>in_f := (in_f (replacer s))[nat f := True],
                                     ref_f := (ref_f (replacer s))[nat f := True]\<rparr>\<rparr>)
      else
        Some (True,
          s\<lparr>pages := (pages s)[nat f := (pages s ! nat f)
                 \<lparr>pin_count := pin_count (pages s ! nat f) - 1,
                  is_dirty := is_dirty (pages s ! nat f) \<or> d\<rparr>]\<rparr>))"
proof -
  note I = bpm_invD[OF inv]
  have f: "0 \<le> f" "nat f < pool_size s" using table_okD[OF I(2) hit] by simp_all
  have fr: "\<And>P. frames_ok (s\<lparr>pages := P\<rparr>) \<longleftrightarrow> length P = pool_size s"
    using I(1) by (simp add: frames_ok_def)
  have un: "\<And>P. length P = pool_size s \<Longrightarrow> Unpin (replacer s) f =
     Some ((replacer s)\<lparr>in_f := (in_f (replacer s))[nat f := True],
                        ref_f := (ref_f (replacer s))[nat f := True]\<rparr>)"
    using Unpin_frame[OF I(1) f] by simp
  have len: "length (pages s) = pool_size s" using I(1) by (simp add: frames_ok_def)
  show ?thesis
    using hit un[OF len]
    by (auto simp: UnpinPageImpl_def page_at_Some[OF I(1) f] set_page_def Let_def)
qed

lemma unpin_to_zero_inv:
  assumes inv: "bpm_inv s" and hit: "page_table s pid = Some f"
    and one: "pin_count (pages s ! nat f) = 1"
  shows "bpm_inv (s\<lparr>pages := (pages s)[nat f := (pages s ! nat f)
                 \<lparr>pin_count := 0, is_dirty := dd\<rparr>],
            replacer := (replacer s)\<lparr>in_f := (in_f (replacer s))[nat f := True],
                                     ref_f := (ref_f (replacer s))[nat f := True]\<rparr>\<rparr>)"
    (is "bpm_inv ?s'")
proof -
  note I = bpm_invD[OF inv]
  have f: "0 \<le> f" "nat f < pool_size s" "page_id (pages s ! nat f) = pid"
    using table_okD[OF I(2) hit] by simp_all
  have len: "length (pages s) = pool_size s" "length (in_f (replacer s)) = pool_size s"
    using I(1) by (simp_all add: frames_ok_def replacer_wf_def)
  have nfree: "f \<notin> set (free_list s)" using I(3) hit by (auto simp: free_ok_def)
  have 1: "frames_ok ?s'" using I(1) by (auto simp: frames_ok_def replacer_wf_def)
  have 2: "table_ok ?s'" using I(2) len f by (auto simp: table_ok_def nth_list_update)
  have 3: "free_ok ?s'" using I(3) len nfree f
    by (auto simp: free_ok_def nth_list_update eq_nat_nat_iff)
  have 4: "replacer_ok ?s'" using I(4) len f hit
    by (auto simp: replacer_ok_def nth_list_update)
  have 6: "pins_ok ?s'" using I(6) len f by (auto simp: pins_ok_def nth_list_update)
  have 5: "evictable_ok ?s'" using I(5) len f
    by (auto simp: evictable_ok_def nth_list_update)
  have 7: "ids_ok ?s'" using I(7) by (simp add: ids_ok_def)
  show ?thesis using 1 2 3 4 5 6 7 by (simp add: bpm_inv_def)
qed

lemma unpin_above_zero_inv:
  assumes inv: "bpm_inv s" and hit: "page_table s pid = Some f"
    and more: "1 < pin_count (pages s ! nat f)"
  shows "bpm_inv (s\<lparr>pages := (pages s)[nat f := (pages s ! nat f)
                 \<lparr>pin_count := pin_count (pages s ! nat f) - 1, is_dirty := dd\<rparr>]\<rparr>)"
    (is "bpm_inv ?s'")
proof -
  note I = bpm_invD[OF inv]
  have f: "0 \<le> f" "nat f < pool_size s" "page_id (pages s ! nat f) = pid"
    using table_okD[OF I(2) hit] by simp_all
  have len: "length (pages s) = pool_size s" "length (in_f (replacer s)) = pool_size s"
    using I(1) by (simp_all add: frames_ok_def replacer_wf_def)
  have nfree: "f \<notin> set (free_list s)" using I(3) hit by (auto simp: free_ok_def)
  have nin: "\<not> in_f (replacer s) ! nat f" using I(4) f more by (auto simp: replacer_ok_def)
  have 1: "frames_ok ?s'" using I(1) by (auto simp: frames_ok_def replacer_wf_def)
  have 2: "table_ok ?s'" using I(2) len f by (auto simp: table_ok_def nth_list_update)
  have 3: "free_ok ?s'" using I(3) len nfree f
    by (auto simp: free_ok_def nth_list_update eq_nat_nat_iff)
  have 4: "replacer_ok ?s'" using I(4) len f nin
    by (auto simp: replacer_ok_def nth_list_update)
  have 6: "pins_ok ?s'" using I(6) len f more by (auto simp: pins_ok_def nth_list_update)
  have 5: "evictable_ok ?s'" using I(5) len f more
    by (auto simp: evictable_ok_def nth_list_update)
  have 7: "ids_ok ?s'" using I(7) by (simp add: ids_ok_def)
  show ?thesis using 1 2 3 4 5 6 7 by (simp add: bpm_inv_def)
qed

lemma UnpinPage_inv:
  assumes inv: "bpm_inv s" and un: "UnpinPageImpl s pid d = Some (ok, s')"
  shows "bpm_inv s'"
proof (cases "page_table s pid")
  case None
  with un inv show ?thesis by (simp add: UnpinPage_miss)
next
  case (Some f)
  note I = bpm_invD[OF inv]
  have f: "0 \<le> f" "nat f < pool_size s" using table_okD[OF I(2) Some] by simp_all
  have pz: "0 \<le> pin_count (pages s ! nat f)" using I(6) f by (simp add: pins_ok_def)
  consider (z) "pin_count (pages s ! nat f) \<le> 0" | (o) "pin_count (pages s ! nat f) = 1"
    | (m) "1 < pin_count (pages s ! nat f)"
    by linarith
  then show ?thesis
  proof cases
    case z
    with UnpinPage_hit[OF inv Some, of d] un inv show ?thesis by simp
  next
    case o
    with UnpinPage_hit[OF inv Some, of d] un unpin_to_zero_inv[OF inv Some o]
    show ?thesis by simp
  next
    case m
    with UnpinPage_hit[OF inv Some, of d] un unpin_above_zero_inv[OF inv Some m]
    show ?thesis by simp
  qed
qed

lemma UnpinPage_defined:
  assumes inv: "bpm_inv s"
  shows "\<exists>ok s'. UnpinPageImpl s pid d = Some (ok, s')"
proof (cases "page_table s pid")
  case None
  then show ?thesis by (auto simp: UnpinPage_miss)
next
  case (Some f)
  show ?thesis unfolding UnpinPage_hit[OF inv Some] by auto
qed

subsection \<open>NewPage\<close>


lemma ids_ok_fresh:
  "ids_ok s \<Longrightarrow> page_table s (next_page_id (disk_manager s)) = None"
  by (cases "page_table s (next_page_id (disk_manager s))") (auto simp: ids_ok_def)

lemma NewPage_free:
  assumes inv: "bpm_inv s" and fl: "free_list s = t # rest"
  shows "NewPageImpl s =
     Some (Some (next_page_id (disk_manager s), t),
       s\<lparr>free_list := rest,
         disk_manager := (disk_manager s)\<lparr>next_page_id := next_page_id (disk_manager s) + 1\<rparr>,
         replacer := (replacer s)\<lparr>in_f := (in_f (replacer s))[nat t := False]\<rparr>,
         page_table := (page_table s)(next_page_id (disk_manager s) \<mapsto> t),
         pages := (pages s)[nat t :=
           \<lparr>data = 0, page_id = next_page_id (disk_manager s), pin_count = 1,
            is_dirty = False\<rparr>]\<rparr>)"
proof -
  note I = bpm_invD[OF inv]
  have t: "0 \<le> t" "nat t < pool_size s"
    using free_okD[OF I(3), of t] fl by simp_all
  show ?thesis
    using fl
    by (simp add: NewPageImpl_def AllocatePage_def Pin_frame[OF I(1) t] page_at_Some[OF I(1) t]
        set_page_def Page_new_fields)
qed

lemma NewPage_victim:
  assumes inv: "bpm_inv s" and fl: "free_list s = []"
    and vic: "Victim (replacer s) = (Some t, r)"
  shows "NewPageImpl s =
     Some (Some (next_page_id (disk_manager s), t),
       s\<lparr>replacer := r,
         disk_manager :=
           (if is_dirty (pages s ! nat t)
            then WritePage (disk_manager s) (page_id (pages s ! nat t)) (data (pages s ! nat t))
            else disk_manager s)\<lparr>next_page_id := next_page_id (disk_manager s) + 1\<rparr>,
         page_table := ((page_table s)(page_id (pages s ! nat t) := None))
                          (next_page_id (disk_manager s) \<mapsto> t),
         pages := (pages s)[nat t :=
           \<lparr>data = 0, page_id = next_page_id (disk_manager s), pin_count = 1,
            is_dirty = False\<rparr>]\<rparr>)"
proof -
  note I = bpm_invD[OF inv]
  note V = victim_facts[OF inv fl vic]
  have wf0: "replacer_wf (replacer s)" using I(1) by (simp add: frames_ok_def)
  have len: "length (pages s) = pool_size s" using I(1) by (simp add: frames_ok_def)
  have pa: "\<And>u. pages u = pages s \<Longrightarrow> page_at u t = Some (pages s ! nat t)"
    using V(1,2) len by (simp add: page_at_def)
  have pin: "Pin r t = Some r" using Pin_after_Victim[OF wf0 vic] .
  show ?thesis
  proof (cases "is_dirty (pages s ! nat t)")
    case False
    then show ?thesis
      using fl vic pin
      by (simp add: NewPageImpl_def AllocatePage_def pa set_page_def Let_def Page_new_fields)
  next
    case True
    have flush: "FlushPageImpl (s\<lparr>replacer := r\<rparr>) (page_id (pages s ! nat t)) =
      Some (True, set_page (s\<lparr>replacer := r,
          disk_manager := WritePage (disk_manager s) (page_id (pages s ! nat t)) (data (pages s ! nat t))\<rparr>)
          t ((pages s ! nat t)\<lparr>is_dirty := False\<rparr>))"
      using True V(8) by (simp add: FlushPageImpl_def pa)
    show ?thesis
      using fl vic pin True V(1,2) len
      by (simp add: NewPageImpl_def AllocatePage_def pa flush set_page_def page_at_def Let_def Page_new_fields)
  qed
qed

lemma NewPage_none:
  assumes fl: "free_list s = []" and vic: "Victim (replacer s) = (None, r)"
  shows "NewPageImpl s = Some (None, s\<lparr>replacer := r\<rparr>)"
  using fl vic by (simp add: NewPageImpl_def)

lemma NewPage_inv:
  assumes inv: "bpm_inv s" and new: "NewPageImpl s = Some (res, s')"
  shows "bpm_inv s'"
proof -
  note I = bpm_invD[OF inv]
  let ?pid = "next_page_id (disk_manager s)"
  have miss: "page_table s ?pid = None" using ids_ok_fresh[OF I(7)] .
  show ?thesis
  proof (cases "free_list s")
    case (Cons t rest)
    let ?dm = "(disk_manager s)\<lparr>next_page_id := ?pid + 1\<rparr>"
    have "bpm_inv (s\<lparr>free_list := rest, disk_manager := ?dm,
         replacer := (replacer s)\<lparr>in_f := (in_f (replacer s))[nat t := False]\<rparr>,
         page_table := (page_table s)(?pid \<mapsto> t),
         pages := (pages s)[nat t :=
           \<lparr>data = 0, page_id = ?pid, pin_count = 1, is_dirty = False\<rparr>]\<rparr>)"
      by (rule install_free_inv[OF inv miss Cons]) simp_all
    with NewPage_free[OF inv Cons] new show ?thesis by simp
  next
    case Nil
    obtain v r where vic: "Victim (replacer s) = (v, r)" by (cases "Victim (replacer s)")
    show ?thesis
    proof (cases v)
      case None
      from NewPage_none[OF Nil] vic None new victim_none_inv[OF inv]
      show ?thesis by auto
    next
      case (Some t)
      then have vic': "Victim (replacer s) = (Some t, r)" using vic by simp
      let ?dm = "(if is_dirty (pages s ! nat t)
            then WritePage (disk_manager s) (page_id (pages s ! nat t)) (data (pages s ! nat t))
            else disk_manager s)\<lparr>next_page_id := ?pid + 1\<rparr>"
      have "bpm_inv (s\<lparr>replacer := r, disk_manager := ?dm,
         page_table := ((page_table s)(page_id (pages s ! nat t) := None))(?pid \<mapsto> t),
         pages := (pages s)[nat t :=
           \<lparr>data = 0, page_id = ?pid, pin_count = 1, is_dirty = False\<rparr>]\<rparr>)"
        by (rule install_victim_inv[OF inv miss Nil vic']) simp_all
      with NewPage_victim[OF inv Nil vic'] new show ?thesis by simp
    qed
  qed
qed

lemma NewPage_defined:
  assumes inv: "bpm_inv s"
  shows "\<exists>res s'. NewPageImpl s = Some (res, s')"
proof (cases "free_list s")
  case (Cons t rest)
  from NewPage_free[OF inv Cons] show ?thesis by blast
next
  case Nil
  obtain v r where vic: "Victim (replacer s) = (v, r)" by (cases "Victim (replacer s)")
  show ?thesis
  proof (cases v)
    case None
    from NewPage_none[OF Nil] vic None show ?thesis by blast
  next
    case (Some t)
    then have vic': "Victim (replacer s) = (Some t, r)" using vic by simp
    from NewPage_victim[OF inv Nil vic'] show ?thesis by blast
  qed
qed

subsection \<open>DeletePage, FlushPage, FlushAllPages and the constructor\<close>












lemma BufferPoolManager_new_inv:
  assumes "n < 2 ^ 31" and "0 \<le> next_page_id dm"
  shows "bpm_inv (BufferPoolManager_new n dm)"
proof -
  have "frames_ok (BufferPoolManager_new n dm)"
    using assms by (simp add: frames_ok_def BufferPoolManager_new_def ClockReplacer_new_wf)
      (simp add: ClockReplacer_new_def)
  moreover have "free_ok (BufferPoolManager_new n dm)"
    by (auto simp: free_ok_def BufferPoolManager_new_def distinct_map)
  moreover have "replacer_ok (BufferPoolManager_new n dm)"
    by (simp add: replacer_ok_def BufferPoolManager_new_def ClockReplacer_new_def)
  ultimately show ?thesis
    by (simp add: bpm_inv_def)
      (simp add: table_ok_def evictable_ok_def pins_ok_def ids_ok_def BufferPoolManager_new_def)
qed

subsection \<open>Claims about the buffer pool manager\<close>
















lemma swept_pool_inv: "\<exists>s. swept_pool = Some s \<and> bpm_inv s"
proof -
  have i0: "bpm_inv (BufferPoolManager_new 2 empty_disk)"
    by (rule BufferPoolManager_new_inv) (simp_all add: empty_disk_def)
  obtain p0 s1 where n0: "NewPageImpl (BufferPoolManager_new 2 empty_disk) = Some (p0, s1)"
    using NewPage_defined[OF i0] by blast
  have i1: "bpm_inv s1" using NewPage_inv[OF i0 n0] .
  obtain p1 s2 where n1: "NewPageImpl s1 = Some (p1, s2)"
    using NewPage_defined[OF i1] by blast
  have i2: "bpm_inv s2" using NewPage_inv[OF i1 n1] .
  obtain ok0 s3 where u0: "UnpinPageImpl s2 0 False = Some (ok0, s3)"
    using UnpinPage_defined[OF i2] by blast
  have i3: "bpm_inv s3" using UnpinPage_inv[OF i2 u0] .
  obtain ok1 s4 where u1: "UnpinPageImpl s3 1 False = Some (ok1, s4)"
    using UnpinPage_defined[OF i3] by blast
  have i4: "bpm_inv s4" using UnpinPage_inv[OF i3 u1] .
  obtain p2 s5 where n2: "NewPageImpl s4 = Some (p2, s5)"
    using NewPage_defined[OF i4] by blast
  have i5: "bpm_inv s5" using NewPage_inv[OF i4 n2] .
  show ?thesis using n0 n1 u0 u1 n2 i5 by (simp add: swept_pool_def)
qed



lemma swept_pool_facts:
  "map_option (\<lambda>s. (page_table s 1, pin_count (pages s ! nat 1))) swept_pool = Some (Some 1, 0)"
  by code_simp




text \<open>
  Claim C8, as stated: for every page id \<open>p\<close>, \<^verbatim>\<open>FetchPage(p)\<close> followed by
  \<^verbatim>\<open>UnpinPage(p, false)\<close> leaves the replacer state unchanged. In the two-frame pool above
  page 1 is resident and unpinned with its ref bit cleared by the sweep; fetching and
  unpinning it sets the ref bit again.
\<close>

theorem FetchPage_UnpinPage_changes_ref_bit:
  "map_option (ref_f \<circ> replacer) (Option.bind swept_pool (fetch_then_unpin 1)) \<noteq>
   map_option (ref_f \<circ> replacer) swept_pool"
proof -
  have a: "map_option (ref_f \<circ> replacer) swept_pool = Some [False, False]"
    by code_simp
  have b: "map_option (ref_f \<circ> replacer) (Option.bind swept_pool (fetch_then_unpin 1)) =
      Some [False, True]"
    by code_simp
  show ?thesis unfolding a b by simp
qed


text \<open>
  Claim C8, amended: for a page \<open>p\<close> that is resident, \<^verbatim>\<open>FetchPage(p)\<close> followed by
  \<^verbatim>\<open>UnpinPage(p, false)\<close> leaves the page table, the free list, the disk and every frame
  (page id, dirty flag, data, and pin count, which goes up and comes back) as they were; the
  replacer is unchanged when the page was pinned before, and when its pin count was 0 the
  only change is that the \<^verbatim>\<open>ref\<close> bit of its frame is set.
\<close>

theorem FetchPage_UnpinPage_resident:
  assumes inv: "bpm_inv s" and hit: "page_table s pid = Some f"
    and pc: "pin_count (pages s ! nat f) < 2147483647"
  shows "fetch_then_unpin pid s =
     Some (s\<lparr>replacer :=
              (if pin_count (pages s ! nat f) = 0
               then (replacer s)\<lparr>ref_f := (ref_f (replacer s))[nat f := True]\<rparr>
               else replacer s)\<rparr>)"
proof -
  note I = bpm_invD[OF inv]
  let ?c = "pin_count (pages s ! nat f)"
  let ?s1 = "s\<lparr>replacer := (replacer s)\<lparr>in_f := (in_f (replacer s))[nat f := False]\<rparr>,
         pages := (pages s)[nat f := (pages s ! nat f)\<lparr>pin_count := ?c + 1\<rparr>]\<rparr>"
  have f: "0 \<le> f" "nat f < pool_size s" using table_okD[OF I(2) hit] by simp_all
  have len: "length (pages s) = pool_size s" "length (in_f (replacer s)) = pool_size s"
    using I(1) by (simp_all add: frames_ok_def replacer_wf_def)
  have pz: "0 \<le> ?c" using I(6) f by (simp add: pins_ok_def)
  have fetch: "FetchPageImpl s pid = Some (Some f, ?s1)" by (rule FetchPage_hit[OF inv hit pc])
  have inv1: "bpm_inv ?s1" by (rule hit_state_inv[OF inv hit])
  have hit1: "page_table ?s1 pid = Some f" using hit by simp
  have pg1: "pages ?s1 ! nat f = (pages s ! nat f)\<lparr>pin_count := ?c + 1\<rparr>"
    using f len by simp
  have restore: "(pages ?s1)[nat f := (pages ?s1 ! nat f)\<lparr>pin_count := ?c, is_dirty := is_dirty (pages s ! nat f)\<rparr>] = pages s"
    unfolding pg1 using list_update_id[of "pages s" "nat f"] by simp
  show ?thesis
  proof (cases "?c = 0")
    case True
    have inn: "in_f (replacer s) ! nat f"
      using I(5) hit True by (auto simp: evictable_ok_def)
    have inb: "(in_f (replacer s))[nat f := True] = in_f (replacer s)"
      using inn list_update_id[of "in_f (replacer s)" "nat f"] by simp
    have "UnpinPageImpl ?s1 pid False = Some (True,
        s\<lparr>replacer := (replacer s)\<lparr>ref_f := (ref_f (replacer s))[nat f := True]\<rparr>\<rparr>)"
      unfolding UnpinPage_hit[OF inv1 hit1] using True restore inb pg1 by simp
    then show ?thesis using fetch True by (simp add: fetch_then_unpin_def)
  next
    case False
    have nin: "\<not> in_f (replacer s) ! nat f"
      using I(4) f False by (auto simp: replacer_ok_def)
    have inb: "(in_f (replacer s))[nat f := False] = in_f (replacer s)"
      using nin list_update_id[of "in_f (replacer s)" "nat f"] by simp
    have "UnpinPageImpl ?s1 pid False = Some (True, s)"
      unfolding UnpinPage_hit[OF inv1 hit1] using False pz restore inb pg1 by simp
    then show ?thesis using fetch False by (simp add: fetch_then_unpin_def)
  qed
qed


theorem FetchPage_UnpinPage_resident_witness:
  "\<exists>s. swept_pool = Some s \<and> bpm_inv s \<and> page_table s 1 = Some 1 \<and>
       pin_count (pages s ! nat 1) = 0 \<and>
       fetch_then_unpin 1 s =
         Some (s\<lparr>replacer := (replacer s)\<lparr>ref_f := (ref_f (replacer s))[nat 1 := True]\<rparr>\<rparr>)"
proof -
  obtain s where s: "swept_pool = Some s" and inv: "bpm_inv s"
    using swept_pool_inv by blast
  have hit: "page_table s 1 = Some 1" and zero: "pin_count (pages s ! nat 1) = 0"
    using swept_pool_facts unfolding s by simp_all
  have pc: "pin_count (pages s ! nat 1) < 2147483647" using zero by simp
  show ?thesis
    using FetchPage_UnpinPage_resident[OF inv hit pc] s inv hit zero by auto
qed

section \<open>The hash table\<close>

subsection \<open>The three scans of a block page\<close>

text \<open>
  What the loops of \<^verbatim>\<open>GetValue\<close>, \<^verbatim>\<open>Remove\<close> and \<^verbatim>\<open>Insert\<close> compute on one block page:
  \<^verbatim>\<open>GetValue\<close> collects the value of every readable slot with the key from the offset to
  the end of the page, \<^verbatim>\<open>Remove\<close> stops at the first readable slot holding the pair, and
  \<^verbatim>\<open>Insert\<close> stops at the first slot that is free or holds the pair. The predicate
  \<open>probe_ok\<close> holds of the zeroed page and is kept by the scans of \<^verbatim>\<open>Insert\<close> and
  \<^verbatim>\<open>Remove\<close> started at the offset of the key.
\<close>

lemma GetValue_loop_eq:
  "GetValue_loop B b k iter result rtn =
     (result @ map (ValueAt b) (filter (\<lambda>i. IsReadable b i \<and> KeyAt b i = k) [iter..<B]),
      rtn \<or> (\<exists>i. iter \<le> i \<and> i < B \<and> IsReadable b i \<and> KeyAt b i = k))"
proof (induction B b k iter result rtn rule: GetValue_loop.induct)
  case (1 B bucket key iter result rtn)
  show ?case
  proof (cases "iter < B")
    case False
    then show ?thesis by (subst GetValue_loop.simps) auto
  next
    case True
    then have upt: "[iter..<B] = iter # [iter + 1..<B]" by (simp add: upt_conv_Cons)
    have ex: "\<And>P. (\<exists>i. iter \<le> i \<and> i < B \<and> P i) \<longleftrightarrow> P iter \<or> (\<exists>i. iter + 1 \<le> i \<and> i < B \<and> P i)"
      using True by (metis Suc_eq_plus1 Suc_leI le_neq_implies_less le_refl Suc_leD)
    show ?thesis
    proof (cases "IsReadable bucket iter \<and> KeyAt bucket iter = key")
      case m: True
      show ?thesis
        using "1.IH"(1)[OF True m] True m
        by (subst GetValue_loop.simps, subst ex) (auto simp: upt)
    next
      case m: False
      show ?thesis
        using "1.IH"(2)[OF True m] True m
        by (subst GetValue_loop.simps, subst ex) (auto simp: upt)
    qed
  qed
qed

lemma Remove_loop_spec:
  "Remove_loop B b k v off = (b', pos) \<Longrightarrow>
     off \<le> pos \<and>
     (\<forall>i. off \<le> i \<and> i < pos \<longrightarrow> \<not> (IsReadable b i \<and> KeyAt b i = k \<and> ValueAt b i = v)) \<and>
     (pos < B \<longrightarrow> IsReadable b pos \<and> KeyAt b pos = k \<and> ValueAt b pos = v \<and>
                 b' = Block_Remove b pos) \<and>
     (\<not> pos < B \<longrightarrow> b' = b)"
proof (induction B b k v off rule: Remove_loop.induct)
  case (1 B bucket key val offset)
  show ?case
  proof (cases "offset < B")
    case False
    with "1.prems" show ?thesis by (subst (asm) Remove_loop.simps) auto
  next
    case True
    show ?thesis
    proof (cases "IsReadable bucket offset \<and> KeyAt bucket offset = key \<and> ValueAt bucket offset = val")
      case m: True
      with "1.prems" True show ?thesis by (subst (asm) Remove_loop.simps) auto
    next
      case m: False
      with "1.prems" True have step: "Remove_loop B bucket key val (offset + 1) = (b', pos)"
        by (subst (asm) Remove_loop.simps) auto
      note IH = "1.IH"[OF True m step]
      have "\<And>i. offset \<le> i \<Longrightarrow> i \<noteq> offset \<Longrightarrow> offset + 1 \<le> i" by simp
      then show ?thesis using IH m by (metis Suc_eq_plus1 Suc_leD)
    qed
  qed
qed

lemma Block_Insert_True_live:
  assumes "Block_Insert b i k v = Some (True, b')"
  shows "IsReadable b' i \<and> KeyAt b' i = k \<and> ValueAt b' i = v"
  using Block_Insert_True(3,4,5)[OF assms] by (simp add: KeyAt_def ValueAt_def)

lemma Insert_loop_cases:
  assumes wf: "block_wf B b"
  shows "(Insert_loop B b k v iter False = Some (False, b) \<and>
          (\<forall>i. iter \<le> i \<and> i < B \<longrightarrow> IsOccupied b i \<and> \<not> live b i k v)) \<or>
         (\<exists>j. iter \<le> j \<and> j < B \<and> Insert_loop B b k v iter False = Some (False, b) \<and>
              IsOccupied b j \<and> live b j k v \<and>
              (\<forall>i. iter \<le> i \<and> i < j \<longrightarrow> IsOccupied b i \<and> \<not> live b i k v)) \<or>
         (\<exists>j b'. iter \<le> j \<and> j < B \<and> Insert_loop B b k v iter False = Some (True, b') \<and>
              \<not> IsOccupied b j \<and> Block_Insert b j k v = Some (True, b') \<and>
              (\<forall>i. iter \<le> i \<and> i < j \<longrightarrow> IsOccupied b i \<and> \<not> live b i k v))"
  using wf
proof (induction "B - iter" arbitrary: iter)
  case 0
  then have "\<not> iter < B" by simp
  then show ?case by (subst Insert_loop.simps) auto
next
  case (Suc n)
  then have lt: "iter < B" by simp
  note wf = Suc.prems
  show ?case
  proof (cases "IsOccupied b iter")
    case occ: True
    have ins: "Block_Insert b iter k v = Some (False, b)"
      using occ by (simp add: Block_Insert_def)
    show ?thesis
    proof (cases "live b iter k v")
      case True
      then have "Insert_loop B b k v iter False = Some (False, b)"
        using lt ins by (subst Insert_loop.simps) (simp add: live_def)
      then have "iter \<le> iter \<and> iter < B \<and> Insert_loop B b k v iter False = Some (False, b) \<and>
              IsOccupied b iter \<and> live b iter k v \<and>
              (\<forall>i. iter \<le> i \<and> i < iter \<longrightarrow> IsOccupied b i \<and> \<not> live b i k v)"
        using lt occ True by auto
      then show ?thesis by blast
    next
      case nl: False
      have step: "Insert_loop B b k v iter False = Insert_loop B b k v (iter + 1) False"
        using lt ins nl by (subst Insert_loop.simps) (auto simp: live_def)
      have n: "n = B - (iter + 1)" using Suc.hyps(2) by simp
      have ext: "\<And>i P. iter \<le> i \<Longrightarrow> i \<noteq> iter \<Longrightarrow> iter + 1 \<le> i" by simp
      from Suc.hyps(1)[OF n wf]
      show ?thesis
      proof (elim disjE exE conjE)
        assume a: "Insert_loop B b k v (iter + 1) False = Some (False, b)"
          "\<forall>i. iter + 1 \<le> i \<and> i < B \<longrightarrow> IsOccupied b i \<and> \<not> live b i k v"
        have "\<forall>i. iter \<le> i \<and> i < B \<longrightarrow> IsOccupied b i \<and> \<not> live b i k v"
          using a(2) occ nl ext by metis
        then show ?thesis using a(1) step by simp
      next
        fix j
        assume a: "iter + 1 \<le> j" "j < B" "Insert_loop B b k v (iter + 1) False = Some (False, b)"
          "IsOccupied b j" "live b j k v"
          "\<forall>i. iter + 1 \<le> i \<and> i < j \<longrightarrow> IsOccupied b i \<and> \<not> live b i k v"
        have "\<forall>i. iter \<le> i \<and> i < j \<longrightarrow> IsOccupied b i \<and> \<not> live b i k v"
          using a(6) occ nl ext by metis
        moreover have "iter \<le> j" using a(1) by simp
        ultimately have "iter \<le> j \<and> j < B \<and> Insert_loop B b k v iter False = Some (False, b) \<and>
              IsOccupied b j \<and> live b j k v \<and>
              (\<forall>i. iter \<le> i \<and> i < j \<longrightarrow> IsOccupied b i \<and> \<not> live b i k v)"
          using a step by simp
        then show ?thesis by blast
      next
        fix j b'
        assume a: "iter + 1 \<le> j" "j < B" "Insert_loop B b k v (iter + 1) False = Some (True, b')"
          "\<not> IsOccupied b j" "Block_Insert b j k v = Some (True, b')"
          "\<forall>i. iter + 1 \<le> i \<and> i < j \<longrightarrow> IsOccupied b i \<and> \<not> live b i k v"
        have "\<forall>i. iter \<le> i \<and> i < j \<longrightarrow> IsOccupied b i \<and> \<not> live b i k v"
          using a(6) occ nl ext by metis
        moreover have "iter \<le> j" using a(1) by simp
        ultimately have "iter \<le> j \<and> j < B \<and> Insert_loop B b k v iter False = Some (True, b') \<and>
              \<not> IsOccupied b j \<and> Block_Insert b j k v = Some (True, b') \<and>
              (\<forall>i. iter \<le> i \<and> i < j \<longrightarrow> IsOccupied b i \<and> \<not> live b i k v)"
          using a step by simp
        then show ?thesis by blast
      qed
    qed
  next
    case nocc: False
    obtain b' where ins: "Block_Insert b iter k v = Some (True, b')"
      using Block_Insert_wf[OF wf lt] nocc by simp
    have "Insert_loop B b k v iter False = Some (True, b')"
      using lt ins Block_Insert_True_live[OF ins] by (subst Insert_loop.simps) simp
    then have "iter \<le> iter \<and> iter < B \<and> Insert_loop B b k v iter False = Some (True, b') \<and>
              \<not> IsOccupied b iter \<and> Block_Insert b iter k v = Some (True, b') \<and>
              (\<forall>i. iter \<le> i \<and> i < iter \<longrightarrow> IsOccupied b i \<and> \<not> live b i k v)"
      using lt nocc ins by auto
    then show ?thesis by blast
  qed
qed

lemma Insert_loop_duplicate:
  assumes wf: "block_wf B b" and j: "offset \<le> j" "j < B"
    and lv: "IsOccupied b j" "live b j k v"
    and occ: "\<forall>i. offset \<le> i \<and> i < j \<longrightarrow> IsOccupied b i"
  shows "Insert_loop B b k v offset False = Some (False, b)"
proof -
  from Insert_loop_cases[OF wf, of k v offset]
  show ?thesis
  proof (elim disjE exE conjE)
    fix j0 b'
    assume a: "offset \<le> j0" "j0 < B" "\<not> IsOccupied b j0"
      "\<forall>i. offset \<le> i \<and> i < j0 \<longrightarrow> IsOccupied b i \<and> \<not> live b i k v"
    consider "j0 < j" | "j0 = j" | "j < j0" by linarith
    then have False
    proof cases
      case 1 then show False using occ a(1,3) by blast
    next
      case 2 then show False using lv(1) a(3) by simp
    next
      case 3 then show False using a(4) j(1) lv(2) by blast
    qed
    then show ?thesis ..
  qed simp_all
qed

lemma filter_unique:
  "distinct xs \<Longrightarrow> j \<in> set xs \<Longrightarrow> P j \<Longrightarrow> (\<forall>i \<in> set xs. P i \<longrightarrow> i = j) \<Longrightarrow>
     filter P xs = [j]"
proof (induction xs)
  case Nil
  then show ?case by simp
next
  case (Cons x xs)
  show ?case
  proof (cases "x = j")
    case True
    have "j \<notin> set xs" using Cons.prems(1) True by simp
    then have "\<forall>i \<in> set xs. \<not> P i" using Cons.prems(4) by auto
    then have "filter P xs = []" by (simp add: filter_empty_conv)
    then show ?thesis using True Cons.prems(3) by simp
  next
    case False
    then have np: "\<not> P x" using Cons.prems(4) by auto
    have "j \<in> set xs" using Cons.prems(2) False by simp
    moreover have "distinct xs" using Cons.prems(1) by simp
    moreover have "\<forall>i \<in> set xs. P i \<longrightarrow> i = j" using Cons.prems(4) by simp
    ultimately have "filter P xs = [j]" using Cons.IH Cons.prems(3) by blast
    then show ?thesis using np by simp
  qed
qed


lemma count_list_map_filter:
  "count_list (map f (filter Q xs)) v = length (filter (\<lambda>i. Q i \<and> f i = v) xs)"
  by (induction xs) simp_all

lemma probe_ok_live:
  assumes pk: "probe_ok h B b" and j: "j < B" and lv: "live b j k v"
  shows "IsOccupied b j" "h k mod B \<le> j" "\<forall>i. h k mod B \<le> i \<and> i < j \<longrightarrow> IsOccupied b i"
    "\<forall>i<B. live b i k v \<longrightarrow> i = j"
proof -
  have r: "IsReadable b j" and kk: "KeyAt b j = k" and vv: "ValueAt b j = v"
    using lv by (simp_all add: live_def)
  have A: "IsOccupied b j \<and> h (KeyAt b j) mod B \<le> j \<and>
        (\<forall>i. h (KeyAt b j) mod B \<le> i \<and> i < j \<longrightarrow> IsOccupied b i)"
    using pk j r unfolding probe_ok_def by blast
  show "IsOccupied b j" using A by simp
  show "h k mod B \<le> j" using A kk by simp
  show "\<forall>i. h k mod B \<le> i \<and> i < j \<longrightarrow> IsOccupied b i" using A kk by simp
  have U: "\<And>i. i < B \<Longrightarrow> IsReadable b i \<Longrightarrow> KeyAt b i = KeyAt b j \<Longrightarrow>
      ValueAt b i = ValueAt b j \<Longrightarrow> i = j"
    using pk j r unfolding probe_ok_def by blast
  show "\<forall>i<B. live b i k v \<longrightarrow> i = j"
    using U kk vv by (simp add: live_def)
qed

lemma GetValue_loop_unique:
  assumes pk: "probe_ok h B b" and j: "j < B" and lv: "live b j k v"
  shows "count_list (fst (GetValue_loop B b k (h k mod B) [] False)) v = 1"
    and "snd (GetValue_loop B b k (h k mod B) [] False)"
proof -
  note L = probe_ok_live[OF pk j lv]
  have "filter (\<lambda>i. (IsReadable b i \<and> KeyAt b i = k) \<and> ValueAt b i = v) [h k mod B..<B] = [j]"
  proof (rule filter_unique)
    show "distinct [h k mod B..<B]" by simp
    show "j \<in> set [h k mod B..<B]" using L(2) j by simp
    show "(IsReadable b j \<and> KeyAt b j = k) \<and> ValueAt b j = v" using lv by (simp add: live_def)
    show "\<forall>i\<in>set [h k mod B..<B]. (IsReadable b i \<and> KeyAt b i = k) \<and> ValueAt b i = v \<longrightarrow> i = j"
      using L(4) by (auto simp: live_def)
  qed
  then show "count_list (fst (GetValue_loop B b k (h k mod B) [] False)) v = 1"
    by (simp add: GetValue_loop_eq count_list_map_filter)
  show "snd (GetValue_loop B b k (h k mod B) [] False)"
    using L(2) j lv by (auto simp: GetValue_loop_eq live_def)
qed

lemma probe_ok_zero: "probe_ok h B (zero_block B)"
  by (simp add: probe_ok_def zero_block_not_readable)

lemma probe_ok_Remove:
  assumes pk: "probe_ok h B b" and wf: "block_wf B b"
  shows "probe_ok h B (Block_Remove b i)"
proof -
  have len: "length (readable b) = length (occupied b)" using wf by (simp add: block_wf_def)
  show ?thesis
    using pk unfolding probe_ok_def
    by (simp add: Block_Remove_readable[OF len] KeyAt_def ValueAt_def)
qed

lemma probe_ok_Remove_loop:
  assumes pk: "probe_ok h B b" and wf: "block_wf B b"
    and rm: "Remove_loop B b k v off = (b', pos)"
  shows "probe_ok h B b' \<and> block_wf B b'"
proof (cases "pos < B")
  case True
  then have "b' = Block_Remove b pos" using Remove_loop_spec[OF rm] by simp
  then show ?thesis using probe_ok_Remove[OF pk wf] Block_Remove_wf[OF wf] by simp
next
  case False
  then have "b' = b" using Remove_loop_spec[OF rm] by simp
  then show ?thesis using pk wf by simp
qed

lemma probe_ok_Block_Insert:
  assumes pk: "probe_ok h B b" and wf: "block_wf B b"
    and j: "h k mod B \<le> j" "j < B"
    and ins: "Block_Insert b j k v = Some (True, b')"
    and before: "\<forall>i. h k mod B \<le> i \<and> i < j \<longrightarrow> IsOccupied b i \<and> \<not> live b i k v"
  shows "probe_ok h B b'"
proof -
  note I = Block_Insert_True[OF ins]
  have arr: "\<And>i. i \<noteq> j \<Longrightarrow> KeyAt b' i = KeyAt b i \<and> ValueAt b' i = ValueAt b i"
    using I(4) by (simp add: KeyAt_def ValueAt_def)
  have new: "KeyAt b' j = k" "ValueAt b' j = v"
    using I(4,5) by (simp_all add: KeyAt_def ValueAt_def)
  have nread: "\<not> IsReadable b j" using pk j(2) I(1) unfolding probe_ok_def by blast
  have nolive: "\<not> live b i k v" if "i < B" for i
  proof
    assume lv: "live b i k v"
    note L = probe_ok_live[OF pk that lv]
    consider "i < j" | "i = j" | "j < i" by linarith
    then show False
    proof cases
      case 1 then show False using before L(2) lv by blast
    next
      case 2 then show False using lv nread by (simp add: live_def)
    next
      case 3 then show False using L(3) j(1) I(1) by blast
    qed
  qed
  have part1: "IsOccupied b' i \<and> h (KeyAt b' i) mod B \<le> i \<and>
        (\<forall>m. h (KeyAt b' i) mod B \<le> m \<and> m < i \<longrightarrow> IsOccupied b' m)"
    if i: "i < B" and r: "IsReadable b' i" for i
  proof (cases "i = j")
    case True
    then show ?thesis using new j before by (simp add: I(2))
  next
    case False
    then have r0: "IsReadable b i" using r by (simp add: I(3))
    then show ?thesis
      using pk i False arr[OF False] unfolding probe_ok_def by (simp add: I(2))
  qed
  have part2: "i = i'"
    if "i < B" "i' < B" "IsReadable b' i" "IsReadable b' i'"
      "KeyAt b' i = KeyAt b' i'" "ValueAt b' i = ValueAt b' i'" for i i'
  proof (cases "i = j")
    case ij: True
    show ?thesis
    proof (cases "i' = j")
      case True then show ?thesis using ij by simp
    next
      case False
      then have "live b i' k v" using that ij new arr[OF False] by (simp add: live_def I(3))
      then show ?thesis using nolive that(2) by blast
    qed
  next
    case ij: False
    show ?thesis
    proof (cases "i' = j")
      case True
      then have "live b i k v" using that ij new arr[OF ij] by (simp add: live_def I(3))
      then show ?thesis using nolive that(1) by blast
    next
      case False
      then show ?thesis
        using pk that ij arr[OF ij] arr[OF False] unfolding probe_ok_def by (simp add: I(3))
    qed
  qed
  show ?thesis unfolding probe_ok_def using part1 part2 by blast
qed

lemma probe_ok_Insert_loop:
  assumes pk: "probe_ok h B b" and wf: "block_wf B b"
    and ins: "Insert_loop B b k v (h k mod B) False = Some (ok, b')"
  shows "probe_ok h B b' \<and> block_wf B b'"
proof -
  from Insert_loop_cases[OF wf, of k v "h k mod B"] ins
  consider (same) "b' = b"
    | (new) j where "h k mod B \<le> j" "j < B" "Block_Insert b j k v = Some (True, b')"
        "\<forall>i. h k mod B \<le> i \<and> i < j \<longrightarrow> IsOccupied b i \<and> \<not> live b i k v"
    by auto
  then show ?thesis
  proof cases
    case same
    then show ?thesis using pk wf by simp
  next
    case new
    show ?thesis
      using probe_ok_Block_Insert[OF pk wf new(1,2,3,4)] Block_Insert_keeps_wf[OF wf new(3)]
      by simp
  qed
qed

lemma Insert_loop_defined:
  "block_wf B b \<Longrightarrow> \<exists>ok b'. Insert_loop B b k v iter False = Some (ok, b')"
  using Insert_loop_cases[of B b k v iter] by blast

subsection \<open>The operations of the table on pages that can be fetched\<close>

text \<open>
  Each operation fetches the header page and the block page of the key, works on the block
  page and unpins both. The lemmas below follow one such call through the buffer pool: when
  the two fetches succeed in a pool that satisfies \<open>bpm_inv\<close>, the call returns, the pool
  still satisfies the invariant, both pages stay resident with the data the call left in
  them, and the result is the one of the scan of the block page.
\<close>

lemma FetchPage_next:
  assumes inv: "bpm_inv s" and fetch: "FetchPageImpl s pid = Some (res, s')"
  shows "next_page_id (disk_manager s') = next_page_id (disk_manager s)"
proof (cases "page_table s pid")
  case (Some f)
  then show ?thesis using fetch
    by (auto simp: FetchPageImpl_def set_page_def bind_eq_Some_conv)
next
  case None
  show ?thesis
  proof (cases "free_list s")
    case (Cons t rest)
    from FetchPage_free[OF inv None Cons] fetch show ?thesis by auto
  next
    case Nil
    obtain v r where vic: "Victim (replacer s) = (v, r)" by (cases "Victim (replacer s)")
    show ?thesis
    proof (cases v)
      case None': None
      from FetchPage_none[OF inv None Nil] vic None' fetch show ?thesis by auto
    next
      case (Some t)
      then have vic': "Victim (replacer s) = (Some t, r)" using vic by simp
      from FetchPage_victim[OF inv None Nil vic'] fetch show ?thesis by auto
    qed
  qed
qed

lemma UnpinPage_disk:
  "UnpinPageImpl s pid d = Some (ok, s') \<Longrightarrow> disk_manager s' = disk_manager s"
  by (auto simp: UnpinPageImpl_def set_page_def Let_def bind_eq_Some_conv
      split: option.splits if_splits)

lemma set_data_fields [simp]:
  "pool_size (set_data s f d) = pool_size s"
  "page_table (set_data s f d) = page_table s"
  "free_list (set_data s f d) = free_list s"
  "replacer (set_data s f d) = replacer s"
  "disk_manager (set_data s f d) = disk_manager s"
  "length (pages (set_data s f d)) = length (pages s)"
  by (simp_all add: set_data_def set_page_def)

lemma set_data_page:
  "nat f < length (pages s) \<Longrightarrow>
     pages (set_data s f d) ! i =
       (if i = nat f then (pages s ! nat f)\<lparr>data := d\<rparr> else pages s ! i)"
  by (simp add: set_data_def set_page_def nth_list_update)

lemma set_data_meta [simp]:
  "page_id (pages (set_data s f d) ! i) = page_id (pages s ! i)"
  "pin_count (pages (set_data s f d) ! i) = pin_count (pages s ! i)"
  "is_dirty (pages (set_data s f d) ! i) = is_dirty (pages s ! i)"
proof -
  show "page_id (pages (set_data s f d) ! i) = page_id (pages s ! i)"
    by (cases "nat f < length (pages s)") (simp_all add: set_data_page, simp add: set_data_def set_page_def list_update_beyond)
  show "pin_count (pages (set_data s f d) ! i) = pin_count (pages s ! i)"
    by (cases "nat f < length (pages s)") (simp_all add: set_data_page, simp add: set_data_def set_page_def list_update_beyond)
  show "is_dirty (pages (set_data s f d) ! i) = is_dirty (pages s ! i)"
    by (cases "nat f < length (pages s)") (simp_all add: set_data_page, simp add: set_data_def set_page_def list_update_beyond)
qed

lemma set_data_inv: "bpm_inv s \<Longrightarrow> bpm_inv (set_data s f d)"
  by (simp add: bpm_inv_def frames_ok_def table_ok_def free_ok_def replacer_ok_def
      evictable_ok_def pins_ok_def ids_ok_def)

lemma header_at_eq:
  "0 \<le> f \<Longrightarrow> nat f < length (pages s) \<Longrightarrow> header_at s f = as_header (data (pages s ! nat f))"
  by (simp add: header_at_def page_at_def)

lemma block_at_eq:
  "0 \<le> f \<Longrightarrow> nat f < length (pages s) \<Longrightarrow> block_at B s f = as_block B (data (pages s ! nat f))"
  by (simp add: block_at_def page_at_def)

lemma GetValue_fetched:
  assumes inv: "bpm_inv s"
    and hdr_alloc: "header_page_id ht < next_page_id (disk_manager s)"
    and F1: "FetchPageImpl s (header_page_id ht) = Some (Some hf, s1)"
    and H: "header_at s1 hf = Some header"
    and nz: "GetSize header \<noteq> 0" "BLOCK_ARRAY_SIZE ht \<noteq> 0"
    and bid: "bucket_id = GetBlockPageId header (hash_fn ht key mod GetSize header)"
    and ex: "bucket_id \<noteq> INVALID_PAGE_ID"
    and b_alloc: "bucket_id < next_page_id (disk_manager s)"
    and F2: "FetchPageImpl s1 bucket_id = Some (Some bf, s2)"
    and Bk: "block_at (BLOCK_ARRAY_SIZE ht) s2 bf = Some bucket"
  shows "\<exists>s'. GetValue ht s key result =
           Some ((snd (GetValue_loop (BLOCK_ARRAY_SIZE ht) bucket key
                        (hash_fn ht key mod BLOCK_ARRAY_SIZE ht) result False),
                  fst (GetValue_loop (BLOCK_ARRAY_SIZE ht) bucket key
                        (hash_fn ht key mod BLOCK_ARRAY_SIZE ht) result False)), s')"
proof -
  have inv1: "bpm_inv s1" using FetchPage_inv[OF inv hdr_alloc F1] .
  have nx1: "next_page_id (disk_manager s1) = next_page_id (disk_manager s)"
    using FetchPage_next[OF inv F1] .
  have inv2: "bpm_inv s2" using FetchPage_inv[OF inv1 _ F2] b_alloc nx1 by simp
  obtain ok1 s3 where U1: "UnpinPageImpl s2 bucket_id False = Some (ok1, s3)"
    using UnpinPage_defined[OF inv2] by blast
  have inv3: "bpm_inv s3" using UnpinPage_inv[OF inv2 U1] .
  obtain ok2 s4 where U2: "UnpinPageImpl s3 (header_page_id ht) False = Some (ok2, s4)"
    using UnpinPage_defined[OF inv3] by blast
  show ?thesis
    using F1 H nz bid[symmetric] ex F2 Bk U1 U2
    by (simp add: GetValue_def Let_def split_beta)
qed

lemma FetchPage_keeps_pinned:
  assumes inv: "bpm_inv s" and res: "page_table s p = Some f"
    and pinned: "0 < pin_count (pages s ! nat f)"
    and fetch: "FetchPageImpl s q = Some (r, s')" and qp: "q \<noteq> p"
  shows "page_table s' p = Some f \<and> pages s' ! nat f = pages s ! nat f"
proof -
  note I = bpm_invD[OF inv]
  have f: "0 \<le> f" "nat f < pool_size s" using table_okD[OF I(2) res] by simp_all
  have len: "length (pages s) = pool_size s" using I(1) by (simp add: frames_ok_def)
  show ?thesis
  proof (cases "page_table s q")
    case (Some g)
    have g: "0 \<le> g" "nat g < pool_size s" using table_okD[OF I(2) Some] by simp_all
    have "g \<noteq> f" using table_ok_inj[OF I(2) Some] res qp by blast
    then have ne: "nat g \<noteq> nat f" using g f by (simp add: eq_nat_nat_iff)
    show ?thesis
    proof (cases "pin_count (pages s ! nat g) < 2147483647")
      case True
      from FetchPage_hit[OF inv Some True] fetch res ne show ?thesis by auto
    next
      case False
      have "FetchPageImpl s q = None"
        using Some False
        by (simp add: FetchPageImpl_def Pin_frame[OF I(1) g] page_at_Some[OF I(1) g] incr_pin_def)
      with fetch show ?thesis by simp
    qed
  next
    case None
    show ?thesis
    proof (cases "free_list s")
      case (Cons t rest)
      have t: "0 \<le> t" "\<forall>p. page_table s p \<noteq> Some t" using free_okD[OF I(3), of t] Cons by simp_all
      then have "t \<noteq> f" using res by blast
      then have ne: "nat t \<noteq> nat f" using t f by (simp add: eq_nat_nat_iff)
      from FetchPage_free[OF inv None Cons] fetch res ne qp show ?thesis by auto
    next
      case Nil
      obtain v rr where vic: "Victim (replacer s) = (v, rr)" by (cases "Victim (replacer s)")
      show ?thesis
      proof (cases v)
        case None': None
        from FetchPage_none[OF inv None Nil] vic None' fetch res show ?thesis by auto
      next
        case (Some t)
        then have vic': "Victim (replacer s) = (Some t, rr)" using vic by simp
        note V = victim_facts[OF inv Nil vic']
        have tf: "t \<noteq> f" using V(7) pinned by auto
        then have ne: "nat t \<noteq> nat f" using V(1) f by (simp add: eq_nat_nat_iff)
        have pe: "p \<noteq> page_id (pages s ! nat t)" using V(8) res tf by auto
        from FetchPage_victim[OF inv None Nil vic'] fetch res ne qp pe show ?thesis by auto
      qed
    qed
  qed
qed

lemma FetchPage_pin_bound:
  assumes inv: "bpm_inv s" and fetch: "FetchPageImpl s q = Some (Some f, s')"
  shows "pin_count (pages s' ! nat f) \<le> 2147483647"
proof -
  note I = bpm_invD[OF inv]
  have len: "length (pages s) = pool_size s" using I(1) by (simp add: frames_ok_def)
  show ?thesis
  proof (cases "page_table s q")
    case (Some g)
    have g: "0 \<le> g" "nat g < pool_size s" using table_okD[OF I(2) Some] by simp_all
    show ?thesis
    proof (cases "pin_count (pages s ! nat g) < 2147483647")
      case True
      from FetchPage_hit[OF inv Some True] fetch g len True show ?thesis by auto
    next
      case False
      have "FetchPageImpl s q = None"
        using Some False
        by (simp add: FetchPageImpl_def Pin_frame[OF I(1) g] page_at_Some[OF I(1) g] incr_pin_def)
      with fetch show ?thesis by simp
    qed
  next
    case None
    show ?thesis
    proof (cases "free_list s")
      case (Cons t rest)
      have t: "0 \<le> t" "nat t < pool_size s" using free_okD[OF I(3), of t] Cons by simp_all
      from FetchPage_free[OF inv None Cons] fetch t len show ?thesis by auto
    next
      case Nil
      obtain v rr where vic: "Victim (replacer s) = (v, rr)" by (cases "Victim (replacer s)")
      show ?thesis
      proof (cases v)
        case None': None
        from FetchPage_none[OF inv None Nil] vic None' fetch show ?thesis by auto
      next
        case (Some t)
        then have vic': "Victim (replacer s) = (Some t, rr)" using vic by simp
        note V = victim_facts[OF inv Nil vic']
        from FetchPage_victim[OF inv None Nil vic'] fetch V(1,2) len show ?thesis by auto
      qed
    qed
  qed
qed

lemma UnpinPage_pinned:
  assumes inv: "bpm_inv u" and res: "page_table u p = Some f"
    and pinned: "0 < pin_count (pages u ! nat f)"
  shows "\<exists>u'. UnpinPageImpl u p d = Some (True, u') \<and> bpm_inv u' \<and>
           page_table u' = page_table u \<and> disk_manager u' = disk_manager u \<and>
           length (pages u') = length (pages u) \<and>
           (\<forall>i. data (pages u' ! i) = data (pages u ! i)) \<and>
           (\<forall>i. pin_count (pages u' ! i) =
                  (if i = nat f then pin_count (pages u ! i) - 1 else pin_count (pages u ! i)))"
proof -
  note I = bpm_invD[OF inv]
  have f: "0 \<le> f" "nat f < pool_size u" using table_okD[OF I(2) res] by simp_all
  have len: "length (pages u) = pool_size u" using I(1) by (simp add: frames_ok_def)
  obtain u' where un: "UnpinPageImpl u p d = Some (True, u')"
    and u': "u' = (if pin_count (pages u ! nat f) = 1 then
          u\<lparr>pages := (pages u)[nat f := (pages u ! nat f)
                 \<lparr>pin_count := 0, is_dirty := is_dirty (pages u ! nat f) \<or> d\<rparr>],
            replacer := (replacer u)\<lparr>in_f := (in_f (replacer u))[nat f := True],
                                     ref_f := (ref_f (replacer u))[nat f := True]\<rparr>\<rparr>
       else u\<lparr>pages := (pages u)[nat f := (pages u ! nat f)
                 \<lparr>pin_count := pin_count (pages u ! nat f) - 1,
                  is_dirty := is_dirty (pages u ! nat f) \<or> d\<rparr>]\<rparr>)"
    using UnpinPage_hit[OF inv res, of d] pinned by auto
  have "bpm_inv u'" using UnpinPage_inv[OF inv un] .
  moreover have "\<forall>i. data (pages u' ! i) = data (pages u ! i)"
    using u' f len by (auto simp: nth_list_update)
  moreover have "\<forall>i. pin_count (pages u' ! i) =
                  (if i = nat f then pin_count (pages u ! i) - 1 else pin_count (pages u ! i))"
    using u' f len by (auto simp: nth_list_update)
  ultimately show ?thesis using un u' by auto
qed

lemma header_is_no_block:
  "as_header d = Some h \<Longrightarrow> GetSize h \<noteq> 0 \<Longrightarrow> as_block B d = None"
  by (cases d) (auto simp: GetSize_def)

lemma header_bucket_distinct:
  assumes inv: "bpm_inv s"
    and F1: "FetchPageImpl s hdr = Some (Some hf, s1)"
    and H: "header_at s1 hf = Some header" and nz: "GetSize header \<noteq> 0"
    and hdr_alloc: "hdr < next_page_id (disk_manager s)"
    and F2: "FetchPageImpl s1 bid = Some (Some bf, s2)"
    and Bk: "block_at B s2 bf = Some bucket"
  shows "hdr \<noteq> bid"
proof
  assume e: "hdr = bid"
  have inv1: "bpm_inv s1" using FetchPage_inv[OF inv hdr_alloc F1] .
  note R = FetchPage_resident[OF inv F1]
  note I = bpm_invD[OF inv1]
  have len: "length (pages s1) = pool_size s1" using I(1) by (simp add: frames_ok_def)
  have hit: "page_table s1 bid = Some hf" using R e by simp
  have hfr: "0 \<le> hf" "nat hf < length (pages s1)" using R len by simp_all
  have s2: "bf = hf \<and> data (pages s2 ! nat hf) = data (pages s1 ! nat hf) \<and>
      length (pages s2) = length (pages s1)"
  proof (cases "pin_count (pages s1 ! nat hf) < 2147483647")
    case True
    from FetchPage_hit[OF inv1 hit True] F2 hfr show ?thesis by auto
  next
    case False
    have "FetchPageImpl s1 bid = None"
      using hit False hfr len
      by (simp add: FetchPageImpl_def Pin_frame[OF I(1)] page_at_Some[OF I(1)] incr_pin_def)
    with F2 show ?thesis by simp
  qed
  have "as_header (data (pages s1 ! nat hf)) = Some header"
    using H hfr by (simp add: header_at_eq)
  then have "as_block B (data (pages s1 ! nat hf)) = None"
    using header_is_no_block nz by blast
  moreover have "as_block B (data (pages s1 ! nat hf)) = Some bucket"
    using Bk s2 hfr by (simp add: block_at_eq)
  ultimately show False by simp
qed

lemma two_fetches:
  assumes inv: "bpm_inv s"
    and hdr_alloc: "hdr < next_page_id (disk_manager s)"
    and bid_alloc: "bid < next_page_id (disk_manager s)"
    and F1: "FetchPageImpl s hdr = Some (Some hf, s1)"
    and F2: "FetchPageImpl s1 bid = Some (Some bf, s2)"
    and ne: "hdr \<noteq> bid"
  shows "bpm_inv s2" "page_table s2 hdr = Some hf" "page_table s2 bid = Some bf"
    "nat hf \<noteq> nat bf" "0 \<le> hf" "nat hf < length (pages s2)" "0 \<le> bf" "nat bf < length (pages s2)"
    "data (pages s2 ! nat hf) = data (pages s1 ! nat hf)"
    "0 < pin_count (pages s2 ! nat hf)" "pin_count (pages s2 ! nat hf) \<le> 2147483647"
    "0 < pin_count (pages s2 ! nat bf)" "pin_count (pages s2 ! nat bf) \<le> 2147483647"
    "next_page_id (disk_manager s2) = next_page_id (disk_manager s)"
proof -
  have inv1: "bpm_inv s1" using FetchPage_inv[OF inv hdr_alloc F1] .
  have nx1: "next_page_id (disk_manager s1) = next_page_id (disk_manager s)"
    using FetchPage_next[OF inv F1] .
  show inv2: "bpm_inv s2" using FetchPage_inv[OF inv1 _ F2] bid_alloc nx1 by simp
  show "next_page_id (disk_manager s2) = next_page_id (disk_manager s)"
    using FetchPage_next[OF inv1 F2] nx1 by simp
  note R1 = FetchPage_resident[OF inv F1]
  note R2 = FetchPage_resident[OF inv1 F2]
  note K = FetchPage_keeps_pinned[OF inv1 _ _ F2 ne[symmetric], of hf]
  have k: "page_table s2 hdr = Some hf" "pages s2 ! nat hf = pages s1 ! nat hf"
    using K R1 by simp_all
  show "page_table s2 hdr = Some hf" by (rule k(1))
  show "page_table s2 bid = Some bf" using R2 by simp
  note I2 = bpm_invD[OF inv2]
  have len: "length (pages s2) = pool_size s2" using I2(1) by (simp add: frames_ok_def)
  show "0 \<le> hf" using R1 by simp
  show "0 \<le> bf" using R2 by simp
  show "nat hf < length (pages s2)" using table_okD[OF I2(2) k(1)] len by simp
  show "nat bf < length (pages s2)" using R2 len by simp
  show "nat hf \<noteq> nat bf"
  proof
    assume "nat hf = nat bf"
    then have "page_id (pages s2 ! nat hf) = page_id (pages s2 ! nat bf)" by simp
    then show False
      using table_okD[OF I2(2) k(1)] table_okD[OF I2(2), of bid bf] R2 ne by simp
  qed
  show "data (pages s2 ! nat hf) = data (pages s1 ! nat hf)" using k(2) by simp
  show "0 < pin_count (pages s2 ! nat hf)" using k(2) R1 by simp
  show "pin_count (pages s2 ! nat hf) \<le> 2147483647"
    using k(2) FetchPage_pin_bound[OF inv F1] by simp
  show "0 < pin_count (pages s2 ! nat bf)" using R2 by simp
  show "pin_count (pages s2 ! nat bf) \<le> 2147483647"
    using FetchPage_pin_bound[OF inv1 F2] by simp
qed

lemma two_unpins:
  assumes inv: "bpm_inv u"
    and rh: "page_table u hdr = Some hf" and rb: "page_table u bid = Some bf"
    and ne: "nat hf \<noteq> nat bf"
    and ph: "0 < pin_count (pages u ! nat hf)" and pb: "0 < pin_count (pages u ! nat bf)"
  shows "\<exists>u1 u2. UnpinPageImpl u bid db = Some (True, u1) \<and>
           UnpinPageImpl u1 hdr dh = Some (True, u2) \<and> bpm_inv u2 \<and>
           page_table u2 = page_table u \<and> disk_manager u2 = disk_manager u \<and>
           length (pages u2) = length (pages u) \<and>
           (\<forall>i. data (pages u2 ! i) = data (pages u ! i)) \<and>
           pin_count (pages u2 ! nat hf) = pin_count (pages u ! nat hf) - 1 \<and>
           pin_count (pages u2 ! nat bf) = pin_count (pages u ! nat bf) - 1"
proof -
  from UnpinPage_pinned[OF inv rb pb, of db]
  obtain u1 where u1: "UnpinPageImpl u bid db = Some (True, u1)" "bpm_inv u1"
    "page_table u1 = page_table u" "disk_manager u1 = disk_manager u"
    "length (pages u1) = length (pages u)"
    "\<forall>i. data (pages u1 ! i) = data (pages u ! i)"
    "\<forall>i. pin_count (pages u1 ! i) =
         (if i = nat bf then pin_count (pages u ! i) - 1 else pin_count (pages u ! i))"
    by blast
  have rh1: "page_table u1 hdr = Some hf" using u1(3) rh by simp
  have ph1: "0 < pin_count (pages u1 ! nat hf)" using u1(7) ne ph by simp
  from UnpinPage_pinned[OF u1(2) rh1 ph1, of dh]
  obtain u2 where u2: "UnpinPageImpl u1 hdr dh = Some (True, u2)" "bpm_inv u2"
    "page_table u2 = page_table u1" "disk_manager u2 = disk_manager u1"
    "length (pages u2) = length (pages u1)"
    "\<forall>i. data (pages u2 ! i) = data (pages u1 ! i)"
    "\<forall>i. pin_count (pages u2 ! i) =
         (if i = nat hf then pin_count (pages u1 ! i) - 1 else pin_count (pages u1 ! i))"
    by blast
  have "pin_count (pages u2 ! nat hf) = pin_count (pages u ! nat hf) - 1"
    using u2(7) u1(7) ne by simp
  moreover have "pin_count (pages u2 ! nat bf) = pin_count (pages u ! nat bf) - 1"
    using u2(7) u1(7) ne by simp
  ultimately show ?thesis using u1 u2 by auto
qed

lemma GetValue_resident:
  assumes inv: "bpm_inv s"
    and hdr_alloc: "header_page_id ht < next_page_id (disk_manager s)"
    and rh: "page_table s (header_page_id ht) = Some hf"
    and rb: "page_table s bucket_id = Some bf"
    and ne: "nat hf \<noteq> nat bf"
    and ph: "pin_count (pages s ! nat hf) < 2147483647"
    and pb: "pin_count (pages s ! nat bf) < 2147483647"
    and H: "as_header (data (pages s ! nat hf)) = Some header"
    and nz: "GetSize header \<noteq> 0" "BLOCK_ARRAY_SIZE ht \<noteq> 0"
    and bid: "bucket_id = GetBlockPageId header (hash_fn ht key mod GetSize header)"
    and ex: "bucket_id \<noteq> INVALID_PAGE_ID"
    and b_alloc: "bucket_id < next_page_id (disk_manager s)"
    and Bk: "as_block (BLOCK_ARRAY_SIZE ht) (data (pages s ! nat bf)) = Some bucket"
  shows "\<exists>s'. GetValue ht s key result =
           Some ((snd (GetValue_loop (BLOCK_ARRAY_SIZE ht) bucket key
                        (hash_fn ht key mod BLOCK_ARRAY_SIZE ht) result False),
                  fst (GetValue_loop (BLOCK_ARRAY_SIZE ht) bucket key
                        (hash_fn ht key mod BLOCK_ARRAY_SIZE ht) result False)), s')"
proof -
  note I = bpm_invD[OF inv]
  have len: "length (pages s) = pool_size s" using I(1) by (simp add: frames_ok_def)
  have hf: "0 \<le> hf" "nat hf < length (pages s)" using table_okD[OF I(2) rh] len by simp_all
  have bf: "0 \<le> bf" "nat bf < length (pages s)" using table_okD[OF I(2) rb] len by simp_all
  let ?s1 = "s\<lparr>replacer := (replacer s)\<lparr>in_f := (in_f (replacer s))[nat hf := False]\<rparr>,
         pages := (pages s)[nat hf := (pages s ! nat hf)\<lparr>pin_count := pin_count (pages s ! nat hf) + 1\<rparr>]\<rparr>"
  have F1: "FetchPageImpl s (header_page_id ht) = Some (Some hf, ?s1)"
    by (rule FetchPage_hit[OF inv rh ph])
  have inv1: "bpm_inv ?s1" by (rule hit_state_inv[OF inv rh])
  have H1: "header_at ?s1 hf = Some header"
    using H hf by (simp add: header_at_eq)
  have rb1: "page_table ?s1 bucket_id = Some bf" using rb by simp
  have pb1: "pin_count (pages ?s1 ! nat bf) < 2147483647" using pb ne hf by simp
  let ?s2 = "?s1\<lparr>replacer := (replacer ?s1)\<lparr>in_f := (in_f (replacer ?s1))[nat bf := False]\<rparr>,
         pages := (pages ?s1)[nat bf := (pages ?s1 ! nat bf)\<lparr>pin_count := pin_count (pages ?s1 ! nat bf) + 1\<rparr>]\<rparr>"
  have F2: "FetchPageImpl ?s1 bucket_id = Some (Some bf, ?s2)"
    by (rule FetchPage_hit[OF inv1 rb1 pb1])
  have B2: "block_at (BLOCK_ARRAY_SIZE ht) ?s2 bf = Some bucket"
    using Bk bf hf ne by (simp add: block_at_eq)
  show ?thesis
    by (rule GetValue_fetched[OF inv hdr_alloc F1 H1 nz bid ex b_alloc F2 B2])
qed

lemma after_two_fetches:
  assumes inv: "bpm_inv s"
    and hdr_alloc: "hdr < next_page_id (disk_manager s)"
    and bid_alloc: "bid < next_page_id (disk_manager s)"
    and F1: "FetchPageImpl s hdr = Some (Some hf, s1)"
    and H: "header_at s1 hf = Some header" and nz: "GetSize header \<noteq> 0"
    and F2: "FetchPageImpl s1 bid = Some (Some bf, s2)"
    and Bk: "block_at B s2 bf = Some bucket"
  shows "\<exists>u1 u2. UnpinPageImpl (set_data s2 bf d) bid db = Some (True, u1) \<and>
           UnpinPageImpl u1 hdr dh = Some (True, u2) \<and> bpm_inv u2 \<and>
           page_table u2 hdr = Some hf \<and> page_table u2 bid = Some bf \<and>
           nat hf \<noteq> nat bf \<and>
           pin_count (pages u2 ! nat hf) < 2147483647 \<and>
           pin_count (pages u2 ! nat bf) < 2147483647 \<and>
           as_header (data (pages u2 ! nat hf)) = Some header \<and>
           data (pages u2 ! nat bf) = d \<and>
           next_page_id (disk_manager u2) = next_page_id (disk_manager s)"
proof -
  have ne: "hdr \<noteq> bid"
    by (rule header_bucket_distinct[OF inv F1 H nz hdr_alloc F2 Bk])
  note T = two_fetches[OF inv hdr_alloc bid_alloc F1 F2 ne]
  let ?u = "set_data s2 bf d"
  have invu: "bpm_inv ?u" using set_data_inv[OF T(1)] .
  have inv1: "bpm_inv s1" using FetchPage_inv[OF inv hdr_alloc F1] .
  have len1: "length (pages s1) = pool_size s1"
    using bpm_invD(1)[OF inv1] by (simp add: frames_ok_def)
  have hf1: "nat hf < length (pages s1)" using FetchPage_resident[OF inv F1] len1 by simp
  have H1: "as_header (data (pages s1 ! nat hf)) = Some header"
    using H T(5) hf1 by (simp add: header_at_eq)
  from two_unpins[of ?u hdr hf bid bf db dh] invu T
  obtain u1 u2 where u: "UnpinPageImpl ?u bid db = Some (True, u1)"
    "UnpinPageImpl u1 hdr dh = Some (True, u2)" "bpm_inv u2"
    "page_table u2 = page_table ?u" "disk_manager u2 = disk_manager ?u"
    "\<forall>i. data (pages u2 ! i) = data (pages ?u ! i)"
    "pin_count (pages u2 ! nat hf) = pin_count (pages ?u ! nat hf) - 1"
    "pin_count (pages u2 ! nat bf) = pin_count (pages ?u ! nat bf) - 1"
    by auto
  have dh': "data (pages u2 ! nat hf) = data (pages s1 ! nat hf)"
    using u(6) T(4,8,9) by (simp add: set_data_page)
  have db': "data (pages u2 ! nat bf) = d"
    using u(6) T(8) by (simp add: set_data_page)
  show ?thesis
    using u(1,2,3) u(4) T(2,3,4) u(7,8) T(11,13) dh' H1 db' u(5) T(14)
    by (intro exI[of _ u1] exI[of _ u2]) simp
qed

lemma Remove_fetched:
  assumes inv: "bpm_inv s"
    and hdr_alloc: "header_page_id ht < next_page_id (disk_manager s)"
    and F1: "FetchPageImpl s (header_page_id ht) = Some (Some hf, s1)"
    and H: "header_at s1 hf = Some header"
    and nz: "GetSize header \<noteq> 0" "BLOCK_ARRAY_SIZE ht \<noteq> 0"
    and bid: "bucket_id = GetBlockPageId header (hash_fn ht key mod GetSize header)"
    and ex: "bucket_id \<noteq> INVALID_PAGE_ID"
    and b_alloc: "bucket_id < next_page_id (disk_manager s)"
    and F2: "FetchPageImpl s1 bucket_id = Some (Some bf, s2)"
    and Bk: "block_at (BLOCK_ARRAY_SIZE ht) s2 bf = Some bucket"
    and RL: "Remove_loop (BLOCK_ARRAY_SIZE ht) bucket key val
               (hash_fn ht key mod BLOCK_ARRAY_SIZE ht) = (bucket', pos)"
  shows "\<exists>s'. Remove ht s key val = Some (pos < BLOCK_ARRAY_SIZE ht, s') \<and> bpm_inv s' \<and>
           page_table s' (header_page_id ht) = Some hf \<and> page_table s' bucket_id = Some bf \<and>
           nat hf \<noteq> nat bf \<and>
           pin_count (pages s' ! nat hf) < 2147483647 \<and>
           pin_count (pages s' ! nat bf) < 2147483647 \<and>
           as_header (data (pages s' ! nat hf)) = Some header \<and>
           data (pages s' ! nat bf) = BlockData bucket' \<and>
           next_page_id (disk_manager s') = next_page_id (disk_manager s)"
proof -
  from after_two_fetches[OF inv hdr_alloc b_alloc F1 H nz(1) F2 Bk,
      of "BlockData bucket'" True False]
  obtain u1 u2 where u: "UnpinPageImpl (set_data s2 bf (BlockData bucket')) bucket_id True = Some (True, u1)"
    "UnpinPageImpl u1 (header_page_id ht) False = Some (True, u2)"
    and rest: "bpm_inv u2 \<and>
           page_table u2 (header_page_id ht) = Some hf \<and> page_table u2 bucket_id = Some bf \<and>
           nat hf \<noteq> nat bf \<and>
           pin_count (pages u2 ! nat hf) < 2147483647 \<and>
           pin_count (pages u2 ! nat bf) < 2147483647 \<and>
           as_header (data (pages u2 ! nat hf)) = Some header \<and>
           data (pages u2 ! nat bf) = BlockData bucket' \<and>
           next_page_id (disk_manager u2) = next_page_id (disk_manager s)"
    by blast
  have "Remove ht s key val = Some (pos < BLOCK_ARRAY_SIZE ht, u2)"
    using F1 H nz bid[symmetric] ex F2 Bk RL u
    by (simp add: Remove_def Let_def)
  then show ?thesis using rest by blast
qed

lemma Insert_grow_none:
  "header_at s hf = Some header \<Longrightarrow> idx < NumBlocks header \<Longrightarrow> Insert_grow s hf idx = Some s"
  by (subst Insert_grow.simps) simp

lemma Insert_fetched:
  assumes inv: "bpm_inv s"
    and hdr_alloc: "header_page_id ht < next_page_id (disk_manager s)"
    and F1: "FetchPageImpl s (header_page_id ht) = Some (Some hf, s1)"
    and H: "header_at s1 hf = Some header"
    and nz: "GetSize header \<noteq> 0" "BLOCK_ARRAY_SIZE ht \<noteq> 0"
    and reg: "hash_fn ht key mod GetSize header < NumBlocks header"
    and bid: "bucket_id = GetBlockPageId header (hash_fn ht key mod GetSize header)"
    and b_alloc: "bucket_id < next_page_id (disk_manager s)"
    and F2: "FetchPageImpl s1 bucket_id = Some (Some bf, s2)"
    and Bk: "block_at (BLOCK_ARRAY_SIZE ht) s2 bf = Some bucket"
    and IL: "Insert_loop (BLOCK_ARRAY_SIZE ht) bucket key val
               (hash_fn ht key mod BLOCK_ARRAY_SIZE ht) False = Some (ins_suc, bucket')"
  shows "\<exists>s'. Insert ht s key val = Some (ins_suc, s') \<and> bpm_inv s' \<and>
           page_table s' (header_page_id ht) = Some hf \<and> page_table s' bucket_id = Some bf \<and>
           nat hf \<noteq> nat bf \<and>
           pin_count (pages s' ! nat hf) < 2147483647 \<and>
           pin_count (pages s' ! nat bf) < 2147483647 \<and>
           as_header (data (pages s' ! nat hf)) = Some header \<and>
           data (pages s' ! nat bf) = BlockData bucket' \<and>
           next_page_id (disk_manager s') = next_page_id (disk_manager s)"
proof -
  from after_two_fetches[OF inv hdr_alloc b_alloc F1 H nz(1) F2 Bk,
      of "BlockData bucket'" True True]
  obtain u1 u2 where u: "UnpinPageImpl (set_data s2 bf (BlockData bucket')) bucket_id True = Some (True, u1)"
    "UnpinPageImpl u1 (header_page_id ht) True = Some (True, u2)"
    and rest: "bpm_inv u2 \<and>
           page_table u2 (header_page_id ht) = Some hf \<and> page_table u2 bucket_id = Some bf \<and>
           nat hf \<noteq> nat bf \<and>
           pin_count (pages u2 ! nat hf) < 2147483647 \<and>
           pin_count (pages u2 ! nat bf) < 2147483647 \<and>
           as_header (data (pages u2 ! nat hf)) = Some header \<and>
           data (pages u2 ! nat bf) = BlockData bucket' \<and>
           next_page_id (disk_manager u2) = next_page_id (disk_manager s)"
    by blast
  have grow: "Insert_grow s1 hf (hash_fn ht key mod GetSize header) = Some s1"
    by (rule Insert_grow_none[OF H reg])
  have "Insert ht s key val = Some (ins_suc, u2)"
    using F1 H nz grow bid[symmetric] F2 Bk IL u
    by (simp add: Insert_def Let_def)
  then show ?thesis using rest by blast
qed

lemma bpm_inv_resident_frame:
  "bpm_inv s \<Longrightarrow> page_table s p = Some f \<Longrightarrow> 0 \<le> f \<and> nat f < length (pages s)"
  by (auto simp: bpm_inv_def table_ok_def frames_ok_def)

lemma Remove_loop_found:
  assumes rm: "Remove_loop B b k v off = (b', pos)"
  shows "pos < B \<longleftrightarrow> (\<exists>i. off \<le> i \<and> i < B \<and> live b i k v)"
proof
  assume "pos < B"
  then show "\<exists>i. off \<le> i \<and> i < B \<and> live b i k v"
    using Remove_loop_spec[OF rm] by (auto simp: live_def)
next
  assume "\<exists>i. off \<le> i \<and> i < B \<and> live b i k v"
  then obtain i where i: "off \<le> i" "i < B" "live b i k v" by blast
  show "pos < B"
  proof (rule ccontr)
    assume "\<not> pos < B"
    then have "i < pos" using i(2) by simp
    then show False using Remove_loop_spec[OF rm] i(1) i(3) by (auto simp: live_def)
  qed
qed

lemma Remove_loop_keeps_other:
  assumes wf: "block_wf B b"
    and rm: "Remove_loop B b k v off = (b', pos)"
    and lv: "live b j' k v'"
    and other: "v' \<noteq> v \<or> (\<exists>j. off \<le> j \<and> j < j' \<and> live b j k v)"
  shows "live b' j' k v'"
proof (cases "pos < B")
  case False
  then have "b' = b" using Remove_loop_spec[OF rm] by simp
  then show ?thesis using lv by simp
next
  case True
  then have at: "live b pos k v" and b': "b' = Block_Remove b pos"
    using Remove_loop_spec[OF rm] by (auto simp: live_def)
  have ne: "j' \<noteq> pos"
  proof
    assume e: "j' = pos"
    from other show False
    proof
      assume "v' \<noteq> v"
      then show False using at lv e by (simp add: live_def)
    next
      assume "\<exists>j. off \<le> j \<and> j < j' \<and> live b j k v"
      then obtain j where "off \<le> j" "j < pos" "live b j k v" using e by blast
      then show False using Remove_loop_spec[OF rm] by (auto simp: live_def)
    qed
  qed
  have len: "length (readable b) = length (occupied b)" using wf by (simp add: block_wf_def)
  have "IsReadable b' j'"
    unfolding b' Block_Remove_readable[OF len] using lv ne by (simp add: live_def)
  moreover have "KeyAt b' j' = k" "ValueAt b' j' = v'"
    using lv by (simp_all add: b' live_def KeyAt_def ValueAt_def)
  ultimately show ?thesis by (simp add: live_def)
qed

lemma Remove_loop_occupied:
  "Remove_loop B b k v off = (b', pos) \<Longrightarrow> IsOccupied b' i = IsOccupied b i"
  using Remove_loop_spec[of B b k v off b' pos] by (cases "pos < B") auto

lemma GetValue_loop_member:
  "off \<le> j \<Longrightarrow> j < B \<Longrightarrow> live b j k v \<Longrightarrow>
     v \<in> set (fst (GetValue_loop B b k off [] False)) \<and> snd (GetValue_loop B b k off [] False)"
  unfolding GetValue_loop_eq by (auto simp: live_def)

lemma Insert_keeps_probe_ok:
  assumes inv: "bpm_inv s"
    and hdr_alloc: "header_page_id ht < next_page_id (disk_manager s)"
    and F1: "FetchPageImpl s (header_page_id ht) = Some (Some hf, s1)"
    and H: "header_at s1 hf = Some header"
    and nz: "GetSize header \<noteq> 0" "BLOCK_ARRAY_SIZE ht \<noteq> 0"
    and bid: "bucket_id = GetBlockPageId header (hash_fn ht key mod GetSize header)"
    and b_alloc: "bucket_id < next_page_id (disk_manager s)"
    and F2: "FetchPageImpl s1 bucket_id = Some (Some bf, s2)"
    and Bk: "block_at (BLOCK_ARRAY_SIZE ht) s2 bf = Some bucket"
    and wf: "block_wf (BLOCK_ARRAY_SIZE ht) bucket"
    and pk: "probe_ok (hash_fn ht) (BLOCK_ARRAY_SIZE ht) bucket"
    and reg: "hash_fn ht key mod GetSize header < NumBlocks header"
  shows "\<exists>ok s' bucket'. Insert ht s key val = Some (ok, s') \<and> bpm_inv s' \<and>
           block_at (BLOCK_ARRAY_SIZE ht) s' bf = Some bucket' \<and>
           block_wf (BLOCK_ARRAY_SIZE ht) bucket' \<and>
           probe_ok (hash_fn ht) (BLOCK_ARRAY_SIZE ht) bucket'"
proof -
  obtain ok bucket' where IL: "Insert_loop (BLOCK_ARRAY_SIZE ht) bucket key val
               (hash_fn ht key mod BLOCK_ARRAY_SIZE ht) False = Some (ok, bucket')"
    using Insert_loop_defined[OF wf] by blast
  obtain s' where I: "Insert ht s key val = Some (ok, s')"
    and inv': "bpm_inv s'"
    and rb: "page_table s' bucket_id = Some bf"
    and D': "data (pages s' ! nat bf) = BlockData bucket'"
    using Insert_fetched[OF inv hdr_alloc F1 H nz reg bid b_alloc F2 Bk IL] by blast
  have bf: "0 \<le> bf \<and> nat bf < length (pages s')" using bpm_inv_resident_frame[OF inv' rb] .
  have B': "block_at (BLOCK_ARRAY_SIZE ht) s' bf = Some bucket'"
    using bf D' by (simp add: block_at_eq)
  show ?thesis using I inv' B' probe_ok_Insert_loop[OF pk wf IL] by blast
qed

lemma Remove_keeps_probe_ok:
  assumes inv: "bpm_inv s"
    and hdr_alloc: "header_page_id ht < next_page_id (disk_manager s)"
    and F1: "FetchPageImpl s (header_page_id ht) = Some (Some hf, s1)"
    and H: "header_at s1 hf = Some header"
    and nz: "GetSize header \<noteq> 0" "BLOCK_ARRAY_SIZE ht \<noteq> 0"
    and bid: "bucket_id = GetBlockPageId header (hash_fn ht key mod GetSize header)"
    and b_alloc: "bucket_id < next_page_id (disk_manager s)"
    and F2: "FetchPageImpl s1 bucket_id = Some (Some bf, s2)"
    and Bk: "block_at (BLOCK_ARRAY_SIZE ht) s2 bf = Some bucket"
    and wf: "block_wf (BLOCK_ARRAY_SIZE ht) bucket"
    and pk: "probe_ok (hash_fn ht) (BLOCK_ARRAY_SIZE ht) bucket"
    and ex: "bucket_id \<noteq> INVALID_PAGE_ID"
  shows "\<exists>ok s' bucket'. Remove ht s key val = Some (ok, s') \<and> bpm_inv s' \<and>
           block_at (BLOCK_ARRAY_SIZE ht) s' bf = Some bucket' \<and>
           block_wf (BLOCK_ARRAY_SIZE ht) bucket' \<and>
           probe_ok (hash_fn ht) (BLOCK_ARRAY_SIZE ht) bucket'"
proof -
  obtain bucket' pos where RL: "Remove_loop (BLOCK_ARRAY_SIZE ht) bucket key val
               (hash_fn ht key mod BLOCK_ARRAY_SIZE ht) = (bucket', pos)"
    by (cases "Remove_loop (BLOCK_ARRAY_SIZE ht) bucket key val
               (hash_fn ht key mod BLOCK_ARRAY_SIZE ht)") blast
  obtain s' where R: "Remove ht s key val = Some (pos < BLOCK_ARRAY_SIZE ht, s')"
    and inv': "bpm_inv s'"
    and rb: "page_table s' bucket_id = Some bf"
    and D': "data (pages s' ! nat bf) = BlockData bucket'"
    using Remove_fetched[OF inv hdr_alloc F1 H nz bid ex b_alloc F2 Bk RL] by blast
  have bf: "0 \<le> bf \<and> nat bf < length (pages s')" using bpm_inv_resident_frame[OF inv' rb] .
  have B': "block_at (BLOCK_ARRAY_SIZE ht) s' bf = Some bucket'"
    using bf D' by (simp add: block_at_eq)
  show ?thesis using R inv' B' probe_ok_Remove_loop[OF pk wf RL] by blast
qed

subsection \<open>The example table\<close>

text \<open>
  The pool written out as \<open>indexed_pool\<close> is the one the constructor and the two calls of
  \<^verbatim>\<open>Insert\<close> produce; it satisfies the invariant of the pool, and its block page 2
  satisfies \<open>probe_ok\<close>.
\<close>

lemma filled_pool_view: "map_option pool_view filled_pool = Some (pool_view indexed_pool)"
  by code_simp

lemma indexed_pool_inv: "bpm_inv indexed_pool"
proof -
  have 1: "frames_ok indexed_pool"
    by (simp add: frames_ok_def indexed_pool_def replacer_wf_def)
  have 2: "table_ok indexed_pool"
    by (auto simp: table_ok_def indexed_pool_def split: if_splits)
  have 3: "free_ok indexed_pool"
    by (simp add: free_ok_def indexed_pool_def)
  have lt3: "\<And>i. i < (3::nat) \<longleftrightarrow> i = 0 \<or> i = 1 \<or> i = 2" by auto
  have 4: "replacer_ok indexed_pool"
    by (auto simp: replacer_ok_def indexed_pool_def lt3)
  have 5: "evictable_ok indexed_pool"
    by (auto simp: evictable_ok_def indexed_pool_def split: if_splits)
  have 6: "pins_ok indexed_pool"
    by (auto simp: pins_ok_def indexed_pool_def lt3)
  have 7: "ids_ok indexed_pool"
    by (auto simp: ids_ok_def indexed_pool_def split: if_splits)
  show ?thesis using 1 2 3 4 5 6 7 by (simp add: bpm_inv_def)
qed

lemma indexed_pool_fetches:
  "\<exists>s1 s2. FetchPageImpl indexed_pool 0 = Some (Some 0, s1) \<and>
     header_at s1 0 = Some example_header \<and>
     FetchPageImpl s1 2 = Some (Some 2, s2) \<and>
     block_at 4 s2 2 = Some example_bucket"
proof -
  have e1: "map_option fst (FetchPageImpl indexed_pool 0) = Some (Some 0)" by code_simp
  then obtain s1 where F1: "FetchPageImpl indexed_pool 0 = Some (Some 0, s1)"
    by (cases "FetchPageImpl indexed_pool 0") auto
  have e2: "Option.bind (FetchPageImpl indexed_pool 0) (\<lambda>(r, s1). header_at s1 0) =
              Some example_header" by code_simp
  have H: "header_at s1 0 = Some example_header" using e2 unfolding F1 by simp
  have e3: "Option.bind (FetchPageImpl indexed_pool 0)
              (\<lambda>(r, s1). map_option fst (FetchPageImpl s1 2)) = Some (Some 2)" by code_simp
  then have "map_option fst (FetchPageImpl s1 2) = Some (Some 2)" unfolding F1 by simp
  then obtain s2 where F2: "FetchPageImpl s1 2 = Some (Some 2, s2)"
    by (cases "FetchPageImpl s1 2") auto
  have e4: "Option.bind (FetchPageImpl indexed_pool 0)
              (\<lambda>(r, s1). Option.bind (FetchPageImpl s1 2) (\<lambda>(r2, s2). block_at 4 s2 2)) =
              Some example_bucket" by code_simp
  have Bk: "block_at 4 s2 2 = Some example_bucket" using e4 unfolding F1 by (simp add: F2)
  show ?thesis using F1 H F2 Bk by blast
qed

lemma example_table_fields:
  "header_page_id example_table = 0" "hash_fn example_table = id"
  "BLOCK_ARRAY_SIZE example_table = 4"
  by (simp_all add: example_table_def)

lemma indexed_pool_next: "next_page_id (disk_manager indexed_pool) = 3"
  by (simp add: indexed_pool_def)

lemma example_header_facts:
  "GetSize example_header = 2" "NumBlocks example_header = 2"
  "GetBlockPageId example_header 1 = 2"
  by code_simp+

lemma example_bucket_slots:
  "\<not> IsReadable example_bucket 0" "\<not> IsOccupied example_bucket 0"
  "live example_bucket 1 5 7" "IsOccupied example_bucket 1"
  "live example_bucket 2 5 8" "IsOccupied example_bucket 2"
  "\<not> IsReadable example_bucket 3" "\<not> IsOccupied example_bucket 3"
  by code_simp+

lemma less_4_cases: "j < (4::nat) \<longleftrightarrow> j = 0 \<or> j = 1 \<or> j = 2 \<or> j = 3"
  by auto

lemma example_bucket_wf: "block_wf 4 example_bucket"
  by (simp add: block_wf_def example_bucket_def)

lemma example_bucket_probe_ok: "probe_ok id 4 example_bucket"
proof -
  have k: "KeyAt example_bucket 1 = 5" "KeyAt example_bucket 2 = 5"
    "ValueAt example_bucket 1 = 7" "ValueAt example_bucket 2 = 8"
    using example_bucket_slots by (simp_all add: live_def)
  have r: "IsReadable example_bucket 1" "IsReadable example_bucket 2"
    using example_bucket_slots by (simp_all add: live_def)
  have a: "\<forall>j<4. IsReadable example_bucket j \<longrightarrow>
        IsOccupied example_bucket j \<and> id (KeyAt example_bucket j) mod 4 \<le> j \<and>
        (\<forall>i. id (KeyAt example_bucket j) mod 4 \<le> i \<and> i < j \<longrightarrow> IsOccupied example_bucket i)"
  proof (intro allI impI)
    fix j :: nat assume "j < 4" "IsReadable example_bucket j"
    then have "j = 1 \<or> j = 2" using example_bucket_slots(1,7) by (auto simp: less_4_cases)
    then show "IsOccupied example_bucket j \<and> id (KeyAt example_bucket j) mod 4 \<le> j \<and>
        (\<forall>i. id (KeyAt example_bucket j) mod 4 \<le> i \<and> i < j \<longrightarrow> IsOccupied example_bucket i)"
    proof
      assume "j = 1" then show ?thesis using k example_bucket_slots(4) by auto
    next
      assume j2: "j = 2"
      have "IsOccupied example_bucket i" if "1 \<le> i" "i < 2" for i
      proof -
        have "i = 1" using that by simp
        then show ?thesis using example_bucket_slots(4) by simp
      qed
      then show ?thesis using k example_bucket_slots(6) j2 by simp
    qed
  qed
  have b: "\<forall>j<4. \<forall>j'<4.
        IsReadable example_bucket j \<and> IsReadable example_bucket j' \<and>
        KeyAt example_bucket j = KeyAt example_bucket j' \<and>
        ValueAt example_bucket j = ValueAt example_bucket j' \<longrightarrow> j = j'"
  proof (intro allI impI)
    fix j j' :: nat
    assume "j < 4" "j' < 4"
      and h: "IsReadable example_bucket j \<and> IsReadable example_bucket j' \<and>
        KeyAt example_bucket j = KeyAt example_bucket j' \<and>
        ValueAt example_bucket j = ValueAt example_bucket j'"
    then have "j = 1 \<or> j = 2" "j' = 1 \<or> j' = 2"
      using example_bucket_slots(1,7) by (auto simp: less_4_cases)
    then show "j = j'" using h k by auto
  qed
  show ?thesis unfolding probe_ok_def using a b by blast
qed

lemma example_lookup_facts:
  "header_page_id example_table < next_page_id (disk_manager indexed_pool)"
  "GetSize example_header \<noteq> 0" "BLOCK_ARRAY_SIZE example_table \<noteq> 0"
  "2 = GetBlockPageId example_header (hash_fn example_table 5 mod GetSize example_header)"
  "(2::int) \<noteq> INVALID_PAGE_ID"
  "2 < next_page_id (disk_manager indexed_pool)"
  "hash_fn example_table 5 mod GetSize example_header < NumBlocks example_header"
  "hash_fn example_table 5 mod BLOCK_ARRAY_SIZE example_table = 1"
proof -
  have one: "GetBlockPageId example_header (Suc 0) = 2" by code_simp
  show "header_page_id example_table < next_page_id (disk_manager indexed_pool)"
    by (simp add: example_table_fields indexed_pool_next)
  show "GetSize example_header \<noteq> 0" by (simp add: example_header_facts)
  show "BLOCK_ARRAY_SIZE example_table \<noteq> 0" by (simp add: example_table_fields)
  show "2 = GetBlockPageId example_header (hash_fn example_table 5 mod GetSize example_header)"
    by (simp add: example_table_fields example_header_facts one)
  show "(2::int) \<noteq> INVALID_PAGE_ID" by (simp add: INVALID_PAGE_ID_def)
  show "2 < next_page_id (disk_manager indexed_pool)" by (simp add: indexed_pool_next)
  show "hash_fn example_table 5 mod GetSize example_header < NumBlocks example_header"
    by (simp add: example_table_fields example_header_facts)
  show "hash_fn example_table 5 mod BLOCK_ARRAY_SIZE example_table = 1"
    by (simp add: example_table_fields)
qed

lemma GetValue_past_free_slots:
  "\<not> IsOccupied gapped_bucket 0 \<and> \<not> IsOccupied gapped_bucket 1 \<and> live gapped_bucket 2 4 9 \<and>
   map_option fst (GetValue example_table gapped_pool 4 []) = Some (True, [9])"
  by code_simp

lemma GetValue_leaves_pins:
  "map_option (pin_counts \<circ> snd) (GetValue example_table indexed_pool 5 []) = Some [0, 0, 0]"
  by code_simp

subsection \<open>The claims about the table\<close>

text \<open>
  Claim C3 says that on every path of every operation of the table, the early returns
  included, each successful \<^verbatim>\<open>FetchPage\<close> is matched by one \<^verbatim>\<open>UnpinPage\<close>, so that an
  operation leaves every pin count as it found it. \<^verbatim>\<open>Remove\<close> does not: it fetches the
  header page and then the block page, and when the block page id read from the header is
  \<^verbatim>\<open>INVALID_PAGE_ID\<close> it returns \<^verbatim>\<open>false\<close> at once, with both pages still pinned, where
  \<^verbatim>\<open>GetValue\<close> unpins the header page on the same path. On the table the constructor
  returns, with nothing pinned, \<^verbatim>\<open>Remove(5, 7)\<close> returns \<^verbatim>\<open>false\<close> and leaves frames 0 and 1
  with pin count 1.
\<close>

theorem Remove_leaks_pins:
  "map_option (pin_counts \<circ> snd) fresh_table = Some [0, 0, 0] \<and>
   map_option (map_prod id pin_counts) (Option.bind fresh_table (\<lambda>(ht, s). Remove ht s 5 7)) =
     Some (False, [1, 1, 0])"
  by code_simp

text \<open>
  Claim C10: for a key whose block page exists, \<^verbatim>\<open>GetValue\<close> examines every slot from
  \<open>hash(k) mod BLOCK_ARRAY_SIZE\<close> to the last slot of the page and returns the values of
  all readable slots in that range whose key is \<open>k\<close>, in the order of the slots, appended to
  the vector it was given; it returns \<^verbatim>\<open>true\<close> iff there is such a slot. The scan does not
  stop at a slot that was never occupied: a readable slot with the key behind a free slot is
  returned all the same. The hypotheses say that the pool satisfies its invariant, that the
  header page and the block page are allocated pages, and that both fetches of the call
  succeed, giving a header page with at least one bucket and a block page.
\<close>

theorem GetValue_returns_all_matches:
  assumes inv: "bpm_inv s"
    and hdr_alloc: "header_page_id ht < next_page_id (disk_manager s)"
    and F1: "FetchPageImpl s (header_page_id ht) = Some (Some hf, s1)"
    and H: "header_at s1 hf = Some header"
    and nz: "GetSize header \<noteq> 0" "BLOCK_ARRAY_SIZE ht \<noteq> 0"
    and bid: "bucket_id = GetBlockPageId header (hash_fn ht key mod GetSize header)"
    and ex: "bucket_id \<noteq> INVALID_PAGE_ID"
    and b_alloc: "bucket_id < next_page_id (disk_manager s)"
    and F2: "FetchPageImpl s1 bucket_id = Some (Some bf, s2)"
    and Bk: "block_at (BLOCK_ARRAY_SIZE ht) s2 bf = Some bucket"
  shows "\<exists>s' vs.
           GetValue ht s key result =
             Some (((\<exists>i. hash_fn ht key mod BLOCK_ARRAY_SIZE ht \<le> i \<and> i < BLOCK_ARRAY_SIZE ht \<and>
                         IsReadable bucket i \<and> KeyAt bucket i = key), vs), s') \<and>
           vs = result @ map (ValueAt bucket)
                  (filter (\<lambda>i. IsReadable bucket i \<and> KeyAt bucket i = key)
                     [hash_fn ht key mod BLOCK_ARRAY_SIZE ht ..< BLOCK_ARRAY_SIZE ht]) \<and>
           (\<forall>i j. hash_fn ht key mod BLOCK_ARRAY_SIZE ht \<le> i \<and> i < j \<and> j < BLOCK_ARRAY_SIZE ht \<and>
                  \<not> IsOccupied bucket i \<and> IsReadable bucket j \<and> KeyAt bucket j = key \<longrightarrow>
                  ValueAt bucket j \<in> set vs)"
proof -
  obtain s' where G: "GetValue ht s key result =
           Some ((snd (GetValue_loop (BLOCK_ARRAY_SIZE ht) bucket key
                        (hash_fn ht key mod BLOCK_ARRAY_SIZE ht) result False),
                  fst (GetValue_loop (BLOCK_ARRAY_SIZE ht) bucket key
                        (hash_fn ht key mod BLOCK_ARRAY_SIZE ht) result False)), s')"
    using GetValue_fetched[OF inv hdr_alloc F1 H nz bid ex b_alloc F2 Bk] by blast
  show ?thesis
    unfolding G GetValue_loop_eq by (rule exI[of _ s']) auto
qed

theorem GetValue_returns_all_matches_witness:
  "bpm_inv indexed_pool \<and>
   map_option pool_view filled_pool = Some (pool_view indexed_pool) \<and>
   (\<exists>s'. GetValue example_table indexed_pool 5 [] = Some ((True, [7, 8]), s'))"
proof -
  obtain s1 s2 where F1: "FetchPageImpl indexed_pool (header_page_id example_table) = Some (Some 0, s1)"
    and H: "header_at s1 0 = Some example_header"
    and F2: "FetchPageImpl s1 2 = Some (Some 2, s2)"
    and Bk: "block_at (BLOCK_ARRAY_SIZE example_table) s2 2 = Some example_bucket"
    using indexed_pool_fetches by (auto simp: example_table_fields)
  have vs: "map (ValueAt example_bucket)
              (filter (\<lambda>i. IsReadable example_bucket i \<and> KeyAt example_bucket i = 5) [1..<4]) = [7, 8]"
    by code_simp
  have found: "\<exists>i. (1::nat) \<le> i \<and> i < 4 \<and> IsReadable example_bucket i \<and> KeyAt example_bucket i = 5"
    using example_bucket_slots(3) by (intro exI[of _ 1]) (simp add: live_def)
  have "\<exists>s'. GetValue example_table indexed_pool 5 [] = Some ((True, [7, 8]), s')"
    using GetValue_returns_all_matches[OF indexed_pool_inv example_lookup_facts(1) F1 H
        example_lookup_facts(2,3,4,5,6) F2 Bk, of "[]"] vs found
    unfolding example_lookup_facts(8) by (auto simp: example_table_fields)
  then show ?thesis using indexed_pool_inv filled_pool_view by blast
qed

text \<open>
  Claim C6: when the block page of \<open>k\<close> holds a readable entry \<open>(k, v')\<close> in a slot of the
  probe region, and that entry is another pair than \<open>(k, v)\<close> or lies behind a readable
  slot holding \<open>(k, v)\<close>, then \<^verbatim>\<open>Remove(k, v)\<close> returns (\<^verbatim>\<open>true\<close> iff a readable slot of the
  region held the pair), leaves every occupied bit of the block page as it was, leaves the
  entry \<open>(k, v')\<close> readable in its slot, and a following \<^verbatim>\<open>GetValue(k)\<close> returns \<^verbatim>\<open>true\<close> and a
  vector that contains \<open>v'\<close>. The hypotheses on the pool are those of the previous claim,
  and the bitmaps of the block page have the length of its layout.
\<close>

theorem Remove_keeps_later_match:
  assumes inv: "bpm_inv s"
    and hdr_alloc: "header_page_id ht < next_page_id (disk_manager s)"
    and F1: "FetchPageImpl s (header_page_id ht) = Some (Some hf, s1)"
    and H: "header_at s1 hf = Some header"
    and nz: "GetSize header \<noteq> 0" "BLOCK_ARRAY_SIZE ht \<noteq> 0"
    and bid: "bucket_id = GetBlockPageId header (hash_fn ht key mod GetSize header)"
    and ex: "bucket_id \<noteq> INVALID_PAGE_ID"
    and b_alloc: "bucket_id < next_page_id (disk_manager s)"
    and F2: "FetchPageImpl s1 bucket_id = Some (Some bf, s2)"
    and Bk: "block_at (BLOCK_ARRAY_SIZE ht) s2 bf = Some bucket"
    and wf: "block_wf (BLOCK_ARRAY_SIZE ht) bucket"
    and j': "hash_fn ht key mod BLOCK_ARRAY_SIZE ht \<le> j'" "j' < BLOCK_ARRAY_SIZE ht"
    and lv': "live bucket j' key val'"
    and other: "val' \<noteq> val \<or>
                (\<exists>j. hash_fn ht key mod BLOCK_ARRAY_SIZE ht \<le> j \<and> j < j' \<and> live bucket j key val)"
  shows "\<exists>s' bucket'.
           Remove ht s key val =
             Some ((\<exists>i. hash_fn ht key mod BLOCK_ARRAY_SIZE ht \<le> i \<and> i < BLOCK_ARRAY_SIZE ht \<and>
                        live bucket i key val), s') \<and>
           block_at (BLOCK_ARRAY_SIZE ht) s' bf = Some bucket' \<and>
           (\<forall>i. IsOccupied bucket' i = IsOccupied bucket i) \<and>
           live bucket' j' key val' \<and>
           (\<exists>vs s''. GetValue ht s' key [] = Some ((True, vs), s'') \<and> val' \<in> set vs)"
proof -
  obtain bucket' pos where RL: "Remove_loop (BLOCK_ARRAY_SIZE ht) bucket key val
               (hash_fn ht key mod BLOCK_ARRAY_SIZE ht) = (bucket', pos)"
    by (cases "Remove_loop (BLOCK_ARRAY_SIZE ht) bucket key val
               (hash_fn ht key mod BLOCK_ARRAY_SIZE ht)") blast
  obtain s' where R: "Remove ht s key val = Some (pos < BLOCK_ARRAY_SIZE ht, s')"
    and inv': "bpm_inv s'"
    and rh: "page_table s' (header_page_id ht) = Some hf"
    and rb: "page_table s' bucket_id = Some bf"
    and ne: "nat hf \<noteq> nat bf"
    and ph: "pin_count (pages s' ! nat hf) < 2147483647"
    and pb: "pin_count (pages s' ! nat bf) < 2147483647"
    and H': "as_header (data (pages s' ! nat hf)) = Some header"
    and D': "data (pages s' ! nat bf) = BlockData bucket'"
    and nx: "next_page_id (disk_manager s') = next_page_id (disk_manager s)"
    using Remove_fetched[OF inv hdr_alloc F1 H nz bid ex b_alloc F2 Bk RL] by blast
  have found: "pos < BLOCK_ARRAY_SIZE ht \<longleftrightarrow>
      (\<exists>i. hash_fn ht key mod BLOCK_ARRAY_SIZE ht \<le> i \<and> i < BLOCK_ARRAY_SIZE ht \<and>
           live bucket i key val)"
    using Remove_loop_found[OF RL] .
  have bf: "0 \<le> bf \<and> nat bf < length (pages s')" using bpm_inv_resident_frame[OF inv' rb] .
  have B': "block_at (BLOCK_ARRAY_SIZE ht) s' bf = Some bucket'"
    using bf D' by (simp add: block_at_eq)
  have A': "as_block (BLOCK_ARRAY_SIZE ht) (data (pages s' ! nat bf)) = Some bucket'"
    using D' by simp
  have lv2: "live bucket' j' key val'"
    using Remove_loop_keeps_other[OF wf RL lv' other] .
  have hdr_alloc': "header_page_id ht < next_page_id (disk_manager s')" using hdr_alloc nx by simp
  have b_alloc': "bucket_id < next_page_id (disk_manager s')" using b_alloc nx by simp
  obtain s'' where G: "GetValue ht s' key [] =
           Some ((snd (GetValue_loop (BLOCK_ARRAY_SIZE ht) bucket' key
                        (hash_fn ht key mod BLOCK_ARRAY_SIZE ht) [] False),
                  fst (GetValue_loop (BLOCK_ARRAY_SIZE ht) bucket' key
                        (hash_fn ht key mod BLOCK_ARRAY_SIZE ht) [] False)), s'')"
    using GetValue_resident[OF inv' hdr_alloc' rh rb ne ph pb H' nz bid ex b_alloc' A'] by blast
  have mem: "val' \<in> set (fst (GetValue_loop (BLOCK_ARRAY_SIZE ht) bucket' key
                        (hash_fn ht key mod BLOCK_ARRAY_SIZE ht) [] False))"
    and flag: "snd (GetValue_loop (BLOCK_ARRAY_SIZE ht) bucket' key
                        (hash_fn ht key mod BLOCK_ARRAY_SIZE ht) [] False)"
    using GetValue_loop_member[OF j' lv2] by simp_all
  have occ: "\<forall>i. IsOccupied bucket' i = IsOccupied bucket i"
    using Remove_loop_occupied[OF RL] by simp
  have G': "\<exists>vs s''. GetValue ht s' key [] = Some ((True, vs), s'') \<and> val' \<in> set vs"
    using G mem flag by simp
  show ?thesis using R found B' occ lv2 G' by auto
qed

theorem Remove_keeps_later_match_witness:
  "live example_bucket 1 5 7 \<and> live example_bucket 2 5 8 \<and>
   (\<exists>s'. Remove example_table indexed_pool 5 7 = Some (True, s') \<and>
      (\<exists>vs s''. GetValue example_table s' 5 [] = Some ((True, vs), s'') \<and> 8 \<in> set vs))"
proof -
  obtain s1 s2 where F1: "FetchPageImpl indexed_pool (header_page_id example_table) = Some (Some 0, s1)"
    and H: "header_at s1 0 = Some example_header"
    and F2: "FetchPageImpl s1 2 = Some (Some 2, s2)"
    and Bk: "block_at (BLOCK_ARRAY_SIZE example_table) s2 2 = Some example_bucket"
    using indexed_pool_fetches by (auto simp: example_table_fields)
  have wf: "block_wf (BLOCK_ARRAY_SIZE example_table) example_bucket"
    using example_bucket_wf by (simp add: example_table_fields)
  have j': "hash_fn example_table 5 mod BLOCK_ARRAY_SIZE example_table \<le> 2"
    "2 < BLOCK_ARRAY_SIZE example_table"
    by (simp_all add: example_table_fields)
  have other: "(8::nat) \<noteq> 7 \<or>
      (\<exists>j. hash_fn example_table 5 mod BLOCK_ARRAY_SIZE example_table \<le> j \<and> j < 2 \<and>
           live example_bucket j 5 7)"
    by simp
  have found: "\<exists>i. hash_fn example_table 5 mod BLOCK_ARRAY_SIZE example_table \<le> i \<and>
      i < BLOCK_ARRAY_SIZE example_table \<and> live example_bucket i 5 7"
    using example_bucket_slots(3) by (intro exI[of _ 1]) (simp add: example_table_fields)
  have "\<exists>s'. Remove example_table indexed_pool 5 7 = Some (True, s') \<and>
      (\<exists>vs s''. GetValue example_table s' 5 [] = Some ((True, vs), s'') \<and> 8 \<in> set vs)"
    using Remove_keeps_later_match[OF indexed_pool_inv example_lookup_facts(1) F1 H
        example_lookup_facts(2,3,4,5,6) F2 Bk wf j' example_bucket_slots(5) other] found
    by auto
  then show ?thesis using example_bucket_slots(3,5) by blast
qed

text \<open>
  Claim C2: when the pair \<open>(k, v)\<close> is in a readable slot of the block page selected by
  \<open>hash(k)\<close>, \<^verbatim>\<open>Insert(k, v)\<close> returns \<^verbatim>\<open>false\<close>, the header page and the block page hold
  afterwards what they held before (no occupied bit, readable bit, key or value of the
  block page has changed), and a following \<^verbatim>\<open>GetValue(k)\<close> returns \<^verbatim>\<open>true\<close> and a vector in
  which \<open>v\<close> occurs exactly once. The block page is one the table can have produced: it
  satisfies \<open>probe_ok\<close>, which the zeroed page satisfies and which \<^verbatim>\<open>Insert\<close> and
  \<^verbatim>\<open>Remove\<close> keep (\<open>probe_ok_zero\<close>, \<open>Insert_keeps_probe_ok\<close>, \<open>Remove_keeps_probe_ok\<close>).
  The hypotheses on the pool are those of the previous claims, and the bucket of the key is
  registered in the header page.
\<close>

theorem Insert_duplicate_rejected:
  assumes inv: "bpm_inv s"
    and hdr_alloc: "header_page_id ht < next_page_id (disk_manager s)"
    and F1: "FetchPageImpl s (header_page_id ht) = Some (Some hf, s1)"
    and H: "header_at s1 hf = Some header"
    and nz: "GetSize header \<noteq> 0" "BLOCK_ARRAY_SIZE ht \<noteq> 0"
    and bid: "bucket_id = GetBlockPageId header (hash_fn ht key mod GetSize header)"
    and ex: "bucket_id \<noteq> INVALID_PAGE_ID"
    and b_alloc: "bucket_id < next_page_id (disk_manager s)"
    and F2: "FetchPageImpl s1 bucket_id = Some (Some bf, s2)"
    and Bk: "block_at (BLOCK_ARRAY_SIZE ht) s2 bf = Some bucket"
    and reg: "hash_fn ht key mod GetSize header < NumBlocks header"
    and wf: "block_wf (BLOCK_ARRAY_SIZE ht) bucket"
    and pk: "probe_ok (hash_fn ht) (BLOCK_ARRAY_SIZE ht) bucket"
    and j: "j < BLOCK_ARRAY_SIZE ht"
    and lv: "live bucket j key val"
  shows "\<exists>s'. Insert ht s key val = Some (False, s') \<and>
           header_at s' hf = Some header \<and>
           block_at (BLOCK_ARRAY_SIZE ht) s' bf = Some bucket \<and>
           (\<exists>vs s''. GetValue ht s' key [] = Some ((True, vs), s'') \<and> count_list vs val = 1)"
proof -
  have IL: "Insert_loop (BLOCK_ARRAY_SIZE ht) bucket key val
               (hash_fn ht key mod BLOCK_ARRAY_SIZE ht) False = Some (False, bucket)"
    using Insert_loop_duplicate[OF wf _ j _ lv] probe_ok_live[OF pk j lv] by blast
  obtain s' where I: "Insert ht s key val = Some (False, s')"
    and inv': "bpm_inv s'"
    and rh: "page_table s' (header_page_id ht) = Some hf"
    and rb: "page_table s' bucket_id = Some bf"
    and ne: "nat hf \<noteq> nat bf"
    and ph: "pin_count (pages s' ! nat hf) < 2147483647"
    and pb: "pin_count (pages s' ! nat bf) < 2147483647"
    and H': "as_header (data (pages s' ! nat hf)) = Some header"
    and D': "data (pages s' ! nat bf) = BlockData bucket"
    and nx: "next_page_id (disk_manager s') = next_page_id (disk_manager s)"
    using Insert_fetched[OF inv hdr_alloc F1 H nz reg bid b_alloc F2 Bk IL] by blast
  have bf: "0 \<le> bf \<and> nat bf < length (pages s')" using bpm_inv_resident_frame[OF inv' rb] .
  have hf: "0 \<le> hf \<and> nat hf < length (pages s')" using bpm_inv_resident_frame[OF inv' rh] .
  have B': "block_at (BLOCK_ARRAY_SIZE ht) s' bf = Some bucket"
    using bf D' by (simp add: block_at_eq)
  have Hd: "header_at s' hf = Some header"
    using hf H' by (simp add: header_at_eq)
  have A': "as_block (BLOCK_ARRAY_SIZE ht) (data (pages s' ! nat bf)) = Some bucket"
    using D' by simp
  have hdr_alloc': "header_page_id ht < next_page_id (disk_manager s')" using hdr_alloc nx by simp
  have b_alloc': "bucket_id < next_page_id (disk_manager s')" using b_alloc nx by simp
  obtain s'' where G: "GetValue ht s' key [] =
           Some ((snd (GetValue_loop (BLOCK_ARRAY_SIZE ht) bucket key
                        (hash_fn ht key mod BLOCK_ARRAY_SIZE ht) [] False),
                  fst (GetValue_loop (BLOCK_ARRAY_SIZE ht) bucket key
                        (hash_fn ht key mod BLOCK_ARRAY_SIZE ht) [] False)), s'')"
    using GetValue_resident[OF inv' hdr_alloc' rh rb ne ph pb H' nz bid ex b_alloc' A'] by blast
  have G': "\<exists>vs s''. GetValue ht s' key [] = Some ((True, vs), s'') \<and> count_list vs val = 1"
    using G GetValue_loop_unique[OF pk j lv] by simp
  show ?thesis using I Hd B' G' by blast
qed

theorem Insert_duplicate_rejected_witness:
  "live example_bucket 1 5 7 \<and> probe_ok id 4 example_bucket \<and>
   (\<exists>s'. Insert example_table indexed_pool 5 7 = Some (False, s') \<and>
      (\<exists>vs s''. GetValue example_table s' 5 [] = Some ((True, vs), s'') \<and> count_list vs 7 = 1))"
proof -
  obtain s1 s2 where F1: "FetchPageImpl indexed_pool (header_page_id example_table) = Some (Some 0, s1)"
    and H: "header_at s1 0 = Some example_header"
    and F2: "FetchPageImpl s1 2 = Some (Some 2, s2)"
    and Bk: "block_at (BLOCK_ARRAY_SIZE example_table) s2 2 = Some example_bucket"
    using indexed_pool_fetches by (auto simp: example_table_fields)
  have wf: "block_wf (BLOCK_ARRAY_SIZE example_table) example_bucket"
    using example_bucket_wf by (simp add: example_table_fields)
  have pk: "probe_ok (hash_fn example_table) (BLOCK_ARRAY_SIZE example_table) example_bucket"
    using example_bucket_probe_ok by (simp add: example_table_fields)
  have j: "1 < BLOCK_ARRAY_SIZE example_table" by (simp add: example_table_fields)
  have "\<exists>s'. Insert example_table indexed_pool 5 7 = Some (False, s') \<and>
      (\<exists>vs s''. GetValue example_table s' 5 [] = Some ((True, vs), s'') \<and> count_list vs 7 = 1)"
    using Insert_duplicate_rejected[OF indexed_pool_inv example_lookup_facts(1) F1 H
        example_lookup_facts(2,3,4,5,6) F2 Bk example_lookup_facts(7) wf pk j
        example_bucket_slots(3)]
    by auto
  then show ?thesis using example_bucket_slots(3) example_bucket_probe_ok by blast
qed

end
